theory Spec2Isabelle
  imports Main "HOL-Library.Word"
begin

unbundle bit_operations_syntax

section \<open>The LZW encoder of lzwencode.c\<close>

text \<open>
  The encoder reads a file byte by byte, keeps a dictionary of strings in an unbalanced
  binary search tree whose nodes are allocated with malloc, and writes code words of a
  growing bit width. The model keeps the tree as the C code has it: a store of nodes,
  addressed by the order of their allocation, whose \<open>left\<close> and \<open>right\<close> fields hold
  addresses (\<open>None\<close> is the NULL pointer). \<open>unsigned int\<close> is a 32-bit word and
  \<open>unsigned char\<close> an 8-bit word. The byte that \<open>fgetc\<close> returns as an \<open>int\<close> is kept as
  an 8-bit word, and EOF is the end of the list of bytes. The files are taken as open:
  the two early returns after \<open>fopen\<close> and \<open>BitFileOpen\<close> (lines 135 to 153) are no part
  of the model, nor is what the bit file makes of a code word and its length.
\<close>

type_synonym uint = "32 word"
type_synonym uchar = "8 word"

subsection \<open>Types and constants\<close>

definition CHAR_BIT :: nat where
  "CHAR_BIT = 8"

definition MAX_CODE_LEN :: nat where
  "MAX_CODE_LEN = 20"

definition FIRST_CODE :: uint where
  "FIRST_CODE = push_bit CHAR_BIT 1"

definition MAX_CODES :: uint where
  "MAX_CODES = push_bit MAX_CODE_LEN 1"

definition CURRENT_MAX_CODES :: "uchar \<Rightarrow> uint" where
  "CURRENT_MAX_CODES BITS = push_bit (unat BITS) 1"

subsection \<open>MakeKey\<close>

definition MakeKey :: "uint \<Rightarrow> uchar \<Rightarrow> uint" where
  "MakeKey prefixCode suffixChar =
     (let key = ucast (suffixChar AND 0xF0);
          key = push_bit MAX_CODE_LEN key;
          key = key OR push_bit 4 prefixCode;
          key = key OR ucast (suffixChar AND 0x0F)
      in key)"

subsection \<open>Dictionary nodes\<close>

record dict_node_t =
  codeWord :: uint
  suffixChar :: uchar
  prefixCode :: uint
  left :: "nat option"
  right :: "nat option"

text \<open>
  How a run of the encoder can end other than by returning TRUE: the early
  \<open>return FALSE\<close> for an empty file, the \<open>exit(EXIT_FAILURE)\<close> of MakeNode when malloc
  returns NULL, and a read through a NULL or unallocated pointer.
\<close>

datatype failure = EmptyFile | AllocFailure | SegFault

subsection \<open>MakeNode\<close>

text \<open>
  The store is the list of the nodes allocated so far; a new node gets the next address.
  \<open>mem\<close> is the number of nodes malloc can supply before it returns NULL: the process
  exits at the first failed allocation, so this number is all that a run can observe of
  the allocator.
\<close>

definition MakeNode ::
  "nat \<Rightarrow> dict_node_t list \<Rightarrow> uint \<Rightarrow> uint \<Rightarrow> uchar \<Rightarrow> failure + dict_node_t list \<times> nat" where
  "MakeNode mem h cw pc sc =
     (if length h < mem
      then Inr (h @ [\<lparr>codeWord = cw, suffixChar = sc, prefixCode = pc,
                      left = None, right = None\<rparr>], length h)
      else Inl AllocFailure)"

subsection \<open>FindDictionaryEntry\<close>

text \<open>
  The \<open>while (1)\<close> loop of FindDictionaryEntry follows child pointers until it finds the
  key or a NULL child. Nothing in the loop itself bounds the walk, so the model is a
  partial function: \<open>None\<close> is a walk that never ends. The parameter \<open>prefixCode\<close> is an
  \<open>int\<close> in C and goes back to \<open>unsigned int\<close> in the call of MakeKey; the model keeps
  the word as it is.
\<close>

partial_function (option) FindLoop ::
  "dict_node_t list \<Rightarrow> nat \<Rightarrow> uint \<Rightarrow> (failure + nat) option" where
  "FindLoop h root searchKey =
     (if root < length h then
        (if MakeKey (prefixCode (h ! root)) (suffixChar (h ! root)) = searchKey
         then Some (Inr root)
         else if searchKey < MakeKey (prefixCode (h ! root)) (suffixChar (h ! root))
         then (case left (h ! root) of
                 Some l \<Rightarrow> FindLoop h l searchKey
               | None \<Rightarrow> Some (Inr root))
         else (case right (h ! root) of
                 Some r \<Rightarrow> FindLoop h r searchKey
               | None \<Rightarrow> Some (Inr root)))
      else Some (Inl SegFault))"

declare FindLoop.simps [code]

definition FindDictionaryEntry ::
  "dict_node_t list \<Rightarrow> nat option \<Rightarrow> uint \<Rightarrow> uchar \<Rightarrow> (failure + nat option) option" where
  "FindDictionaryEntry h root pc c =
     (case root of
        None \<Rightarrow> Some (Inr None)
      | Some r \<Rightarrow>
          (case FindLoop h r (MakeKey pc c) of
             None \<Rightarrow> None
           | Some (Inl e) \<Rightarrow> Some (Inl e)
           | Some (Inr p) \<Rightarrow> Some (Inr (Some p))))"

subsection \<open>The state of LZWEncodeFile\<close>

text \<open>
  The local variables of LZWEncodeFile, the store, the calls of PutCodeWord made so far
  (each a code and the length it is written with, in order), and the lines written to
  stderr.
\<close>

record enc_state =
  heap :: "dict_node_t list"
  dictRoot :: "nat option"
  code :: uint
  currentCodeLen :: uchar
  nextCode :: uint
  bfpOut :: "(uint \<times> uchar) list"
  stderr :: "string list"

definition PutCodeWord :: "uint \<Rightarrow> uchar \<Rightarrow> enc_state \<Rightarrow> enc_state" where
  "PutCodeWord cw codeLen s = s\<lparr>bfpOut := bfpOut s @ [(cw, codeLen)]\<rparr>"

text \<open>The loop of lines 228 to 235: escape codes until the code fits, or 20 bits.\<close>

function escalate :: "enc_state \<Rightarrow> enc_state" where
  "escalate s =
     (if CURRENT_MAX_CODES (currentCodeLen s) - 1 \<le> code s \<and>
         unat (currentCodeLen s) < MAX_CODE_LEN
      then escalate
             ((PutCodeWord (CURRENT_MAX_CODES (currentCodeLen s) - 1) (currentCodeLen s) s)
                \<lparr>currentCodeLen := currentCodeLen s + 1\<rparr>)
      else s)"
  by pat_completeness auto
termination
proof (relation "measure (\<lambda>s. MAX_CODE_LEN - unat (currentCodeLen s))")
  show "wf (measure (\<lambda>s. MAX_CODE_LEN - unat (currentCodeLen s)))"
    by simp
next
  fix s :: enc_state
  assume a: "CURRENT_MAX_CODES (currentCodeLen s) - 1 \<le> code s \<and>
         unat (currentCodeLen s) < MAX_CODE_LEN"
  then have "unat (currentCodeLen s) < 20"
    by (simp add: MAX_CODE_LEN_def)
  then have "unat (currentCodeLen s + 1) = unat (currentCodeLen s) + 1"
    by (simp add: unat_word_ariths)
  with a show "((PutCodeWord (CURRENT_MAX_CODES (currentCodeLen s) - 1) (currentCodeLen s) s)
                \<lparr>currentCodeLen := currentCodeLen s + 1\<rparr>, s)
        \<in> measure (\<lambda>s. MAX_CODE_LEN - unat (currentCodeLen s))"
    by (auto simp: PutCodeWord_def intro: diff_less_mono2)
qed

declare escalate.simps [simp del]

subsection \<open>LZWEncodeFile\<close>

text \<open>
  The input file is the list of its bytes; \<open>fgetc\<close> takes the head of what is left and
  returns EOF on the empty list, again at every later call. The state before the first
  read (lines 155 to 161); \<open>code\<close> has no value yet in C, and is 0 here:
\<close>

definition init_state :: enc_state where
  "init_state =
     \<lparr>heap = [], dictRoot = None, code = 0, currentCodeLen = 9, nextCode = FIRST_CODE,
      bfpOut = [], stderr = []\<rparr>"

text \<open>Lines 176 to 188, for a second byte \<open>c\<close>: the root of the tree.\<close>

definition seed :: "nat \<Rightarrow> enc_state \<Rightarrow> uchar \<Rightarrow> (failure \<times> enc_state) + enc_state" where
  "seed mem s c =
     (case MakeNode mem (heap s) (nextCode s) (code s) c of
        Inl e \<Rightarrow> Inl (e, s)
      | Inr (h, tmp) \<Rightarrow>
          Inr ((PutCodeWord (code s) (currentCodeLen s)
                  (s\<lparr>heap := h, dictRoot := Some tmp, nextCode := nextCode s + 1\<rparr>))
                 \<lparr>code := ucast c\<rparr>))"

text \<open>The line that line 224 prints to stderr.\<close>

definition dictionary_full :: string where
  "dictionary_full = ''Error: Dictionary Full'' @ [CHR 0x0A]"

text \<open>Lines 204 to 225: the new node is hung below the node the search ended at.\<close>

definition add_entry ::
  "nat \<Rightarrow> enc_state \<Rightarrow> nat \<Rightarrow> uchar \<Rightarrow> (failure \<times> enc_state) + enc_state" where
  "add_entry mem s node c =
     (if nextCode s < MAX_CODES then
        (case MakeNode mem (heap s) (nextCode s) (code s) c of
           Inl e \<Rightarrow> Inl (e, s)
         | Inr (h, tmp) \<Rightarrow>
             Inr (s\<lparr>heap :=
                       (if MakeKey (code s) c
                           < MakeKey (prefixCode (h ! node)) (suffixChar (h ! node))
                        then h[node := (h ! node)\<lparr>left := Some tmp\<rparr>]
                        else h[node := (h ! node)\<lparr>right := Some tmp\<rparr>]),
                     nextCode := nextCode s + 1\<rparr>))
      else Inr (s\<lparr>stderr := stderr s @ [dictionary_full]\<rparr>))"

text \<open>
  One turn of the loop of lines 191 to 243, for the byte \<open>c\<close> just read. Lines 196 and
  197 read the fields of the node returned: through NULL, or through an address that was
  never allocated, the run ends in \<open>SegFault\<close>.
\<close>

definition running_step ::
  "nat \<Rightarrow> enc_state \<Rightarrow> uchar \<Rightarrow> ((failure \<times> enc_state) + enc_state) option" where
  "running_step mem s c =
     (case FindDictionaryEntry (heap s) (dictRoot s) (code s) c of
        None \<Rightarrow> None
      | Some (Inl e) \<Rightarrow> Some (Inl (e, s))
      | Some (Inr None) \<Rightarrow> Some (Inl (SegFault, s))
      | Some (Inr (Some node)) \<Rightarrow>
          (if length (heap s) \<le> node then Some (Inl (SegFault, s))
           else if prefixCode (heap s ! node) = code s \<and> suffixChar (heap s ! node) = c
           then Some (Inr (s\<lparr>code := codeWord (heap s ! node)\<rparr>))
           else
             (case add_entry mem s node c of
                Inl e \<Rightarrow> Some (Inl e)
              | Inr s1 \<Rightarrow>
                  (let s2 = escalate s1;
                       s3 = PutCodeWord (code s2) (currentCodeLen s2) s2
                   in Some (Inr (s3\<lparr>code := ucast c\<rparr>))))))"

fun running ::
  "nat \<Rightarrow> enc_state \<Rightarrow> uchar list \<Rightarrow> ((failure \<times> enc_state) + enc_state) option" where
  "running mem s [] = Some (Inr s)"
| "running mem s (c # cs) =
     (case running_step mem s c of
        None \<Rightarrow> None
      | Some (Inl e) \<Rightarrow> Some (Inl e)
      | Some (Inr s') \<Rightarrow> running mem s' cs)"

text \<open>
  Lines 163 to 243: the state of LZWEncodeFile when \<open>fgetc\<close> returns EOF, at line 177
  for a file of one byte and at line 191 otherwise.
\<close>

definition encode_input ::
  "nat \<Rightarrow> uchar list \<Rightarrow> ((failure \<times> enc_state) + enc_state) option" where
  "encode_input mem input =
     (case input of
        [] \<Rightarrow> Some (Inl (EmptyFile, init_state))
      | c0 # rest \<Rightarrow>
          (case rest of
             [] \<Rightarrow> Some (Inr (init_state\<lparr>code := ucast c0\<rparr>))
           | c1 # rest' \<Rightarrow>
               (case seed mem (init_state\<lparr>code := ucast c0\<rparr>) c1 of
                  Inl e \<Rightarrow> Some (Inl e)
                | Inr s \<Rightarrow> running mem s rest')))"

text \<open>
  The whole function: \<open>Inr\<close> is the state at \<open>return TRUE\<close>, after the last code word
  of line 246.
\<close>

definition LZWEncodeFile ::
  "nat \<Rightarrow> uchar list \<Rightarrow> ((failure \<times> enc_state) + enc_state) option" where
  "LZWEncodeFile mem input =
     (case encode_input mem input of
        None \<Rightarrow> None
      | Some (Inl e) \<Rightarrow> Some (Inl e)
      | Some (Inr s) \<Rightarrow> Some (Inr (PutCodeWord (code s) (currentCodeLen s) s)))"

subsection \<open>Predicates used in the statements\<close>

text \<open>The order the tree is built on (lines 212, 213 and 387), on pairs of a prefix code
  and a suffix character.\<close>

definition key_less :: "uint \<times> uchar \<Rightarrow> uint \<times> uchar \<Rightarrow> bool" where
  "key_less a b \<longleftrightarrow> MakeKey (fst a) (snd a) < MakeKey (fst b) (snd b)"

definition node_key :: "dict_node_t \<Rightarrow> uint" where
  "node_key n = MakeKey (prefixCode n) (suffixChar n)"

text \<open>Every child pointer of the store points to a node allocated later than its parent.\<close>

definition heap_wf :: "dict_node_t list \<Rightarrow> bool" where
  "heap_wf h \<longleftrightarrow>
     (\<forall>i<length h.
        (\<forall>j. left (h ! i) = Some j \<longrightarrow> i < j \<and> j < length h) \<and>
        (\<forall>j. right (h ! i) = Some j \<longrightarrow> i < j \<and> j < length h))"

text \<open>The tree has a root, the first node allocated.\<close>

definition tree_ok :: "enc_state \<Rightarrow> bool" where
  "tree_ok s \<longleftrightarrow> heap s \<noteq> [] \<and> dictRoot s = Some 0 \<and> heap_wf (heap s)"

text \<open>What the search for the key \<open>k\<close> returns: the node \<open>p\<close> that holds the key, or the node
  under which the key belongs, whose child on that side is NULL.\<close>

definition find_post :: "dict_node_t list \<Rightarrow> uint \<Rightarrow> nat \<Rightarrow> bool" where
  "find_post h k p \<longleftrightarrow> p < length h \<and>
     (node_key (h ! p) = k \<or> (k < node_key (h ! p) \<and> left (h ! p) = None) \<or>
      (node_key (h ! p) < k \<and> right (h ! p) = None))"

text \<open>A later store \<open>h'\<close> extends \<open>h\<close>: the nodes of \<open>h\<close> keep their keys and their child
  pointers; only NULL pointers have been filled.\<close>

definition heap_ext :: "dict_node_t list \<Rightarrow> dict_node_t list \<Rightarrow> bool" where
  "heap_ext h h' \<longleftrightarrow> length h \<le> length h' \<and>
     (\<forall>i<length h. node_key (h' ! i) = node_key (h ! i) \<and>
        (\<forall>l. left (h ! i) = Some l \<longrightarrow> left (h' ! i) = Some l) \<and>
        (\<forall>l. right (h ! i) = Some l \<longrightarrow> right (h' ! i) = Some l))"

text \<open>The string of an entry, as its prefix code and suffix character, and the whole entry.\<close>

definition pair_of :: "dict_node_t \<Rightarrow> uint \<times> uchar" where
  "pair_of n = (prefixCode n, suffixChar n)"

definition entry_of :: "dict_node_t \<Rightarrow> uint \<times> uint \<times> uchar" where
  "entry_of n = (codeWord n, prefixCode n, suffixChar n)"

text \<open>The codes of the dictionary: the node allocated as number \<open>i\<close> has the code \<open>256 + i\<close>,
  above its prefix code; \<open>nextCode\<close> is the first code not in use, at most \<open>2^20\<close>; the
  current code is in use or a byte.\<close>

definition codes_ok :: "enc_state \<Rightarrow> bool" where
  "codes_ok s \<longleftrightarrow>
     unat (nextCode s) = 256 + length (heap s) \<and> 256 + length (heap s) \<le> 2 ^ 20 \<and>
     (\<forall>i<length (heap s).
        unat (codeWord (heap s ! i)) = 256 + i \<and>
        prefixCode (heap s ! i) < codeWord (heap s ! i)) \<and>
     code s < nextCode s"

text \<open>The tree is a search tree for its keys: the search from the root finds every node.\<close>

definition search_ok :: "dict_node_t list \<Rightarrow> bool" where
  "search_ok h \<longleftrightarrow> (\<forall>j<length h. FindLoop h 0 (node_key (h ! j)) = Some (Inr j))"

text \<open>The store after lines 209 to 220: the node \<open>n\<close> allocated, and hung below \<open>p\<close>.\<close>

definition add_heap :: "dict_node_t list \<Rightarrow> nat \<Rightarrow> dict_node_t \<Rightarrow> dict_node_t list" where
  "add_heap h p n =
     (if node_key n < node_key (h ! p)
      then (h @ [n])[p := (h ! p)\<lparr>left := Some (length h)\<rparr>]
      else (h @ [n])[p := (h ! p)\<lparr>right := Some (length h)\<rparr>])"

text \<open>The node that line 209 makes.\<close>

definition new_node :: "enc_state \<Rightarrow> uchar \<Rightarrow> dict_node_t" where
  "new_node s c = \<lparr>codeWord = nextCode s, suffixChar = c, prefixCode = code s,
                    left = None, right = None\<rparr>"

text \<open>The code length is between 9 and 20 bits.\<close>

definition width_ok :: "enc_state \<Rightarrow> bool" where
  "width_ok s \<longleftrightarrow> 9 \<le> unat (currentCodeLen s) \<and> unat (currentCodeLen s) \<le> 20"

text \<open>Two code words written one after the other: the first is an escape code (all ones at
  its length, the next one bit longer and not smaller), or it is below the escape code
  of its length, or 20 bits long, and the next has the same length.\<close>

definition emit_rel :: "uint \<times> uchar \<Rightarrow> uint \<times> uchar \<Rightarrow> bool" where
  "emit_rel e e' \<longleftrightarrow>
     (snd e' = snd e + 1 \<and> fst e = CURRENT_MAX_CODES (snd e) - 1 \<and> fst e \<le> fst e') \<or>
     (snd e' = snd e \<and>
        (fst e < CURRENT_MAX_CODES (snd e) - 1 \<or> unat (snd e) = MAX_CODE_LEN))"

text \<open>A code word written while the next free code is \<open>nc\<close>: 9 to 20 bits long, and a code
  in use or an escape code.\<close>

definition emitted_ok :: "uint \<Rightarrow> uint \<times> uchar \<Rightarrow> bool" where
  "emitted_ok nc e \<longleftrightarrow>
     9 \<le> unat (snd e) \<and> unat (snd e) \<le> MAX_CODE_LEN \<and>
     (fst e < nc \<or> fst e = CURRENT_MAX_CODES (snd e) - 1)"

text \<open>The last code word written is a code at the current length, below the escape code
  unless the length is 20; or, inside the loop of lines 228 to 235, an escape code of the
  length before, not above the code about to be written.\<close>

definition last_code :: "enc_state \<Rightarrow> bool" where
  "last_code s \<longleftrightarrow>
     snd (last (bfpOut s)) = currentCodeLen s \<and>
     (fst (last (bfpOut s)) < CURRENT_MAX_CODES (currentCodeLen s) - 1 \<or>
      unat (currentCodeLen s) = MAX_CODE_LEN)"

definition last_escape :: "enc_state \<Rightarrow> bool" where
  "last_escape s \<longleftrightarrow>
     snd (last (bfpOut s)) + 1 = currentCodeLen s \<and>
     unat (snd (last (bfpOut s))) < MAX_CODE_LEN \<and>
     fst (last (bfpOut s)) = CURRENT_MAX_CODES (snd (last (bfpOut s))) - 1 \<and>
     fst (last (bfpOut s)) \<le> code s"

text \<open>The code words written so far.\<close>

definition trace_ok :: "enc_state \<Rightarrow> bool" where
  "trace_ok s \<longleftrightarrow>
     bfpOut s \<noteq> [] \<and> snd (hd (bfpOut s)) = 9 \<and> successively emit_rel (bfpOut s) \<and>
     (\<forall>e\<in>set (bfpOut s). emitted_ok (nextCode s) e) \<and> width_ok s"

text \<open>The condition and the body of the loop of lines 228 to 235.\<close>

definition esc_cond :: "enc_state \<Rightarrow> bool" where
  "esc_cond s \<longleftrightarrow> CURRENT_MAX_CODES (currentCodeLen s) - 1 \<le> code s \<and>
     unat (currentCodeLen s) < MAX_CODE_LEN"

definition esc_body :: "enc_state \<Rightarrow> enc_state" where
  "esc_body s = (PutCodeWord (CURRENT_MAX_CODES (currentCodeLen s) - 1) (currentCodeLen s) s)
                  \<lparr>currentCodeLen := currentCodeLen s + 1\<rparr>"

text \<open>What holds whenever the loop of lines 191 to 243 reads a byte.\<close>

definition running_inv :: "enc_state \<Rightarrow> bool" where
  "running_inv s \<longleftrightarrow>
     tree_ok s \<and> codes_ok s \<and> search_ok (heap s) \<and> distinct (map pair_of (heap s)) \<and>
     trace_ok s \<and> last_code s"

text \<open>Lines 227 to 241: the escape codes, the code, and the new current code \<open>c\<close>.\<close>

definition emit_next :: "enc_state \<Rightarrow> uchar \<Rightarrow> enc_state" where
  "emit_next s1 c =
     (let s2 = escalate s1;
          s3 = PutCodeWord (code s2) (currentCodeLen s2) s2
      in s3\<lparr>code := ucast c\<rparr>)"

text \<open>The state after the first two bytes \<open>c0\<close> and \<open>c1\<close> (line 188), and the state after a file
  of the single byte \<open>c0\<close>.\<close>

definition seed_state :: "uchar \<Rightarrow> uchar \<Rightarrow> enc_state" where
  "seed_state c0 c1 =
     \<lparr>heap = [\<lparr>codeWord = 256, suffixChar = c1, prefixCode = ucast c0,
                left = None, right = None\<rparr>],
      dictRoot = Some 0, code = ucast c1, currentCodeLen = 9, nextCode = 257,
      bfpOut = [(ucast c0, 9)], stderr = []\<rparr>"

definition single_state :: "uchar \<Rightarrow> enc_state" where
  "single_state c0 = init_state\<lparr>code := ucast c0\<rparr>"

text \<open>Two code words written one after the other: the length stays, or grows by one after an
  escape code.\<close>

definition width_rel :: "uint \<times> uchar \<Rightarrow> uint \<times> uchar \<Rightarrow> bool" where
  "width_rel e e' \<longleftrightarrow>
     snd e' = snd e \<or> (snd e' = snd e + 1 \<and> fst e = CURRENT_MAX_CODES (snd e) - 1)"

text \<open>The code words of an output that are no bytes.\<close>

definition dict_codes :: "(uint \<times> uchar) list \<Rightarrow> uint list" where
  "dict_codes out = filter (\<lambda>v. FIRST_CODE \<le> v) (map fst out)"

text \<open>The code words a run writes that returns TRUE.\<close>

definition written :: "nat \<Rightarrow> uchar list \<Rightarrow> (uint \<times> uchar) list option" where
  "written mem input =
     (case LZWEncodeFile mem input of Some (Inr s) \<Rightarrow> Some (bfpOut s) | _ \<Rightarrow> None)"


text \<open>Line 246.\<close>

definition final_state :: "enc_state \<Rightarrow> enc_state" where
  "final_state s = PutCodeWord (code s) (currentCodeLen s) s"

text \<open>The run on the four bytes A A A A: the state at the end of the file, and after line 246.\<close>

definition AAAA_loop :: enc_state where
  "AAAA_loop =
     \<lparr>heap = [\<lparr>codeWord = 256, suffixChar = 65, prefixCode = 65, left = None, right = Some 1\<rparr>,
              \<lparr>codeWord = 257, suffixChar = 65, prefixCode = 256, left = None, right = None\<rparr>],
      dictRoot = Some 0, code = 65, currentCodeLen = 9, nextCode = 258,
      bfpOut = [(65, 9), (256, 9)], stderr = []\<rparr>"

definition AAAA_final :: enc_state where
  "AAAA_final = AAAA_loop\<lparr>bfpOut := [(65, 9), (256, 9), (65, 9)]\<rparr>"




text \<open>
  A run whose last code word does not fit its length: the bytes 0, 1, ..., 255 give the
  dictionary the 255 entries 256 = (0, 1), ..., 510 = (254, 255) and write only single
  bytes, so the length stays at 9 bits; the bytes 0, 255, 0 then add 511 = (255, 0) and
  512 = (0, 255) and match the string of code 511, which line 246 writes with 9 bits.
\<close>

definition unchecked_input :: "uchar list" where
  "unchecked_input = map of_nat [0..<256] @ [0, 255, 0]"

definition chain_pairs :: "nat \<Rightarrow> (uint \<times> uchar) list" where
  "chain_pairs k = map (\<lambda>i. (of_nat i, of_nat (Suc i))) [0..<Suc k]"

definition chain :: "nat \<Rightarrow> enc_state \<Rightarrow> bool" where
  "chain k s \<longleftrightarrow>
     running_inv s \<and> map pair_of (heap s) = chain_pairs k \<and> code s = of_nat (Suc k) \<and>
     currentCodeLen s = 9"

text \<open>
  One byte more, and the code 511 is written by the loop: first the escape code 511 with
  9 bits, then the code 511 with 10 bits.
\<close>

definition escape_input :: "uchar list" where
  "escape_input = unchecked_input @ [5]"

text \<open>
  A run that fills the dictionary: a file of equal bytes. After the two bytes of the seed
  the dictionary holds 256 = (65, 65); from then on each new entry is the longest string
  so far and one more byte, 257 + i = (256 + i, 65). With \<open>m + 1\<close> entries the next
  \<open>m + 2\<close> bytes match the entries one after the other and then add the next one.
\<close>

definition rep_pairs :: "nat \<Rightarrow> (uint \<times> uchar) list" where
  "rep_pairs m = (65, 65) # map (\<lambda>i. (of_nat (256 + i), 65)) [0..<m]"

definition rep :: "nat \<Rightarrow> nat \<Rightarrow> enc_state \<Rightarrow> bool" where
  "rep m j s \<longleftrightarrow>
     running_inv s \<and> map pair_of (heap s) = rep_pairs m \<and>
     code s = (if j = 0 then 65 else of_nat (255 + j)) \<and> stderr s = []"

definition full_count :: nat where
  "full_count = 1048319"

definition filling_input :: "uchar list" where
  "filling_input = 65 # 65 # concat (map (\<lambda>m. replicate (m + 2) 65) [0..<Suc full_count])"

text \<open>The output for the eight bytes A B A B X A B A.\<close>

definition ABABXABA_out :: "(uint \<times> uchar) list" where
  "ABABXABA_out = [(65, 9), (66, 9), (256, 9), (88, 9), (256, 9), (65, 9)]"

section \<open>Properties of the encoder\<close>

subsection \<open>The key\<close>

lemma MAX_CODES_eq: "MAX_CODES = 2 ^ 20"
  by (simp add: MAX_CODES_def MAX_CODE_LEN_def)

lemma unat_MAX_CODES: "unat MAX_CODES = 2 ^ 20"
  by (simp add: MAX_CODES_eq)

lemma byte_F0: "(0xF0 :: 8 word) = push_bit 4 (mask 4)"
  by (simp add: mask_eq_exp_minus_1)

lemma byte_0F: "(0x0F :: 8 word) = mask 4"
  by (simp add: mask_eq_exp_minus_1)

lemma bit_MakeKey:
  "bit (MakeKey p s) n \<longleftrightarrow>
     n < 32 \<and> ((n < 4 \<and> bit s n) \<or> (4 \<le> n \<and> bit p (n - 4)) \<or> (24 \<le> n \<and> n < 28 \<and> bit s (n - 20)))"
  unfolding MakeKey_def MAX_CODE_LEN_def Let_def byte_F0 byte_0F
  apply (simp add: bit_simps)
  apply (auto simp: bit_simps)
  done

lemma small_code_bits:
  fixes p :: uint
  assumes "p < MAX_CODES" "20 \<le> m"
  shows "\<not> bit p m"
proof -
  from assms(1) have "unat p < 2 ^ 20"
    by (simp add: MAX_CODES_eq word_less_nat_alt)
  also have "(2::nat) ^ 20 \<le> 2 ^ m"
    using assms(2) by (intro power_increasing) simp_all
  finally have "unat p div 2 ^ m = 0"
    by simp
  then have "\<not> bit (unat p) m"
    by (simp add: bit_iff_odd)
  then show ?thesis
    by (simp add: bit_unsigned_iff)
qed

lemma MakeKey_inj:
  assumes p1: "p1 < MAX_CODES" and p2: "p2 < MAX_CODES"
    and eq: "MakeKey p1 s1 = MakeKey p2 s2"
  shows "p1 = p2 \<and> s1 = s2"
proof
  have B: "bit (MakeKey p1 s1) n = bit (MakeKey p2 s2) n" for n
    by (simp add: eq)
  show "p1 = p2"
  proof (rule bit_word_eqI)
    fix n assume "n < LENGTH(32)"
    show "bit p1 n = bit p2 n"
    proof (cases "n < 20")
      case True
      with B [of "n + 4"] show ?thesis
        by (simp add: bit_MakeKey)
    next
      case False
      with p1 p2 show ?thesis
        by (simp add: small_code_bits)
    qed
  qed
  show "s1 = s2"
  proof (rule bit_word_eqI)
    fix n assume n: "n < LENGTH(8)"
    show "bit s1 n = bit s2 n"
    proof (cases "n < 4")
      case True
      with B [of n] show ?thesis
        by (simp add: bit_MakeKey)
    next
      case False
      with n B [of "n + 20"] p1 p2 show ?thesis
        by (simp add: bit_MakeKey small_code_bits)
    qed
  qed
qed

subsection \<open>The search in the tree\<close>

lemma FindLoop_unfold:
  "r < length h \<Longrightarrow> FindLoop h r k =
     (if node_key (h ! r) = k then Some (Inr r)
      else if k < node_key (h ! r)
      then (case left (h ! r) of Some l \<Rightarrow> FindLoop h l k | None \<Rightarrow> Some (Inr r))
      else (case right (h ! r) of Some l \<Rightarrow> FindLoop h l k | None \<Rightarrow> Some (Inr r)))"
  by (subst FindLoop.simps) (simp only: node_key_def if_True)

lemma heap_wf_left: "heap_wf h \<Longrightarrow> i < length h \<Longrightarrow> left (h ! i) = Some j \<Longrightarrow> i < j \<and> j < length h"
  unfolding heap_wf_def by blast

lemma heap_wf_right: "heap_wf h \<Longrightarrow> i < length h \<Longrightarrow> right (h ! i) = Some j \<Longrightarrow> i < j \<and> j < length h"
  unfolding heap_wf_def by blast

lemma FindLoop_total:
  assumes wf: "heap_wf h"
  shows "r < length h \<Longrightarrow> \<exists>p. FindLoop h r k = Some (Inr p) \<and> find_post h k p"
proof (induction "length h - r" arbitrary: r rule: less_induct)
  case less
  note r = \<open>r < length h\<close>
  note u = FindLoop_unfold [OF r, of k]
  show ?case
  proof (cases "node_key (h ! r) = k")
    case True
    with r show ?thesis by (simp add: u find_post_def)
  next
    case ne: False
    show ?thesis
    proof (cases "k < node_key (h ! r)")
      case lt: True
      show ?thesis
      proof (cases "left (h ! r)")
        case None
        with r ne lt show ?thesis by (simp add: u find_post_def)
      next
        case (Some l)
        with wf r have l: "r < l" "l < length h" using heap_wf_left by blast+
        then have "length h - l < length h - r" by arith
        from less.hyps [OF this l(2)] obtain p where "FindLoop h l k = Some (Inr p)" "find_post h k p"
          by blast
        with ne lt Some show ?thesis
          by (simp add: u)
      qed
    next
      case ge: False
      with ne have gt: "node_key (h ! r) < k" by simp
      show ?thesis
      proof (cases "right (h ! r)")
        case None
        with r ne ge gt show ?thesis by (simp add: u find_post_def)
      next
        case (Some l)
        with wf r have l: "r < l" "l < length h" using heap_wf_right by blast+
        then have "length h - l < length h - r" by arith
        from less.hyps [OF this l(2)] obtain p where "FindLoop h l k = Some (Inr p)" "find_post h k p"
          by blast
        with ne ge Some show ?thesis
          by (simp add: u)
      qed
    qed
  qed
qed

lemma heap_ext_key: "heap_ext h h' \<Longrightarrow> i < length h \<Longrightarrow> node_key (h' ! i) = node_key (h ! i)"
  unfolding heap_ext_def by blast

lemma heap_ext_left: "heap_ext h h' \<Longrightarrow> i < length h \<Longrightarrow> left (h ! i) = Some l \<Longrightarrow> left (h' ! i) = Some l"
  unfolding heap_ext_def by blast

lemma heap_ext_right: "heap_ext h h' \<Longrightarrow> i < length h \<Longrightarrow> right (h ! i) = Some l \<Longrightarrow> right (h' ! i) = Some l"
  unfolding heap_ext_def by blast

lemma heap_ext_length: "heap_ext h h' \<Longrightarrow> i < length h \<Longrightarrow> i < length h'"
  unfolding heap_ext_def by simp

lemma FindLoop_ext_found:
  assumes wf: "heap_wf h" and ext: "heap_ext h h'"
  shows "r < length h \<Longrightarrow> FindLoop h r k = Some (Inr j) \<Longrightarrow> node_key (h ! j) = k \<Longrightarrow>
         FindLoop h' r k = Some (Inr j)"
proof (induction "length h - r" arbitrary: r rule: less_induct)
  case less
  note r = \<open>r < length h\<close>
  note res = \<open>FindLoop h r k = Some (Inr j)\<close>
  note kj = \<open>node_key (h ! j) = k\<close>
  note u = FindLoop_unfold [OF r, of k]
  note u' = FindLoop_unfold [OF heap_ext_length [OF ext r], of k]
  note key = heap_ext_key [OF ext r]
  show ?case
  proof (cases "node_key (h ! r) = k")
    case True
    with res have jr: "j = r" by (simp add: u)
    from True have "FindLoop h' r k = Some (Inr r)" by (simp add: u' key)
    with jr show ?thesis by simp
  next
    case ne: False
    show ?thesis
    proof (cases "k < node_key (h ! r)")
      case lt: True
      show ?thesis
      proof (cases "left (h ! r)")
        case None
        with res ne lt have "j = r" by (simp add: u)
        with kj ne show ?thesis by simp
      next
        case (Some l)
        with wf r have l: "r < l" "l < length h" using heap_wf_left by blast+
        then have m: "length h - l < length h - r" by arith
        from res ne lt Some have "FindLoop h l k = Some (Inr j)" by (simp add: u)
        from less.hyps [OF m l(2) this kj] have "FindLoop h' l k = Some (Inr j)" .
        moreover have "left (h' ! r) = Some l" using ext r Some by (rule heap_ext_left)
        ultimately show ?thesis using ne lt by (simp add: u' key)
      qed
    next
      case ge: False
      show ?thesis
      proof (cases "right (h ! r)")
        case None
        with res ne ge have "j = r" by (simp add: u)
        with kj ne show ?thesis by simp
      next
        case (Some l)
        with wf r have l: "r < l" "l < length h" using heap_wf_right by blast+
        then have m: "length h - l < length h - r" by arith
        from res ne ge Some have "FindLoop h l k = Some (Inr j)" by (simp add: u)
        from less.hyps [OF m l(2) this kj] have "FindLoop h' l k = Some (Inr j)" .
        moreover have "right (h' ! r) = Some l" using ext r Some by (rule heap_ext_right)
        ultimately show ?thesis using ne ge by (simp add: u' key)
      qed
    qed
  qed
qed

lemma FindLoop_ext_new:
  assumes wf: "heap_wf h" and ext: "heap_ext h h'"
    and t: "t < length h'" "node_key (h' ! t) = k"
    and p: "p < length h" "node_key (h ! p) \<noteq> k"
    and lp: "k < node_key (h ! p) \<Longrightarrow> left (h' ! p) = Some t"
    and rp: "\<not> k < node_key (h ! p) \<Longrightarrow> right (h' ! p) = Some t"
  shows "r < length h \<Longrightarrow> FindLoop h r k = Some (Inr p) \<Longrightarrow> FindLoop h' r k = Some (Inr t)"
proof (induction "length h - r" arbitrary: r rule: less_induct)
  case less
  note r = \<open>r < length h\<close>
  note res = \<open>FindLoop h r k = Some (Inr p)\<close>
  note u = FindLoop_unfold [OF r, of k]
  note u' = FindLoop_unfold [OF heap_ext_length [OF ext r], of k]
  note key = heap_ext_key [OF ext r]
  have at_t: "FindLoop h' t k = Some (Inr t)"
    using t by (simp add: FindLoop_unfold [OF t(1), of k])
  show ?case
  proof (cases "node_key (h ! r) = k")
    case True
    with res have "p = r" by (simp add: u)
    with True p(2) show ?thesis by simp
  next
    case ne: False
    show ?thesis
    proof (cases "k < node_key (h ! r)")
      case lt: True
      show ?thesis
      proof (cases "left (h ! r)")
        case None
        with res ne lt have pr: "p = r" by (simp add: u)
        with lt lp have "left (h' ! r) = Some t" by simp
        with ne lt at_t show ?thesis by (simp add: u' key)
      next
        case (Some l)
        with wf r have l: "r < l" "l < length h" using heap_wf_left by blast+
        then have m: "length h - l < length h - r" by arith
        from res ne lt Some have "FindLoop h l k = Some (Inr p)" by (simp add: u)
        from less.hyps [OF m l(2) this] have "FindLoop h' l k = Some (Inr t)" .
        moreover have "left (h' ! r) = Some l" using ext r Some by (rule heap_ext_left)
        ultimately show ?thesis using ne lt by (simp add: u' key)
      qed
    next
      case ge: False
      show ?thesis
      proof (cases "right (h ! r)")
        case None
        with res ne ge have pr: "p = r" by (simp add: u)
        with ge rp have "right (h' ! r) = Some t" by simp
        with ne ge at_t show ?thesis by (simp add: u' key)
      next
        case (Some l)
        with wf r have l: "r < l" "l < length h" using heap_wf_right by blast+
        then have m: "length h - l < length h - r" by arith
        from res ne ge Some have "FindLoop h l k = Some (Inr p)" by (simp add: u)
        from less.hyps [OF m l(2) this] have "FindLoop h' l k = Some (Inr t)" .
        moreover have "right (h' ! r) = Some l" using ext r Some by (rule heap_ext_right)
        ultimately show ?thesis using ne ge by (simp add: u' key)
      qed
    qed
  qed
qed

subsection \<open>The codes of the dictionary\<close>

lemma codes_ok_next: "codes_ok s \<Longrightarrow> unat (nextCode s) = 256 + length (heap s)"
  unfolding codes_ok_def by blast

lemma codes_ok_bound: "codes_ok s \<Longrightarrow> 256 + length (heap s) \<le> 2 ^ 20"
  unfolding codes_ok_def by blast

lemma codes_ok_codeWord: "codes_ok s \<Longrightarrow> i < length (heap s) \<Longrightarrow> unat (codeWord (heap s ! i)) = 256 + i"
  unfolding codes_ok_def by blast

lemma codes_ok_prefix: "codes_ok s \<Longrightarrow> i < length (heap s) \<Longrightarrow> prefixCode (heap s ! i) < codeWord (heap s ! i)"
  unfolding codes_ok_def by blast

lemma codes_ok_code: "codes_ok s \<Longrightarrow> code s < nextCode s"
  unfolding codes_ok_def by blast

lemma codes_ok_code_small: "codes_ok s \<Longrightarrow> code s < MAX_CODES"
proof -
  assume a: "codes_ok s"
  then have "unat (code s) < unat (nextCode s)"
    by (simp add: codes_ok_code word_less_nat_alt [symmetric])
  also have "\<dots> \<le> 2 ^ 20"
    using codes_ok_bound [OF a] by (simp add: codes_ok_next [OF a])
  finally show ?thesis
    by (simp add: word_less_nat_alt unat_MAX_CODES)
qed

lemma codes_ok_prefix_small:
  assumes "codes_ok s" "i < length (heap s)"
  shows "prefixCode (heap s ! i) < MAX_CODES"
proof -
  have "unat (prefixCode (heap s ! i)) < unat (codeWord (heap s ! i))"
    using assms by (simp add: codes_ok_prefix word_less_nat_alt [symmetric])
  also have "\<dots> = 256 + i"
    using assms by (rule codes_ok_codeWord)
  also have "\<dots> < 2 ^ 20"
    using codes_ok_bound [OF assms(1)] assms(2) by arith
  finally show ?thesis
    by (simp add: word_less_nat_alt unat_MAX_CODES)
qed

subsection \<open>Hanging a new node into the tree\<close>

lemma node_key_new_node [simp]: "node_key (new_node s c) = MakeKey (code s) c"
  by (simp add: node_key_def new_node_def)

lemma node_key_update [simp]:
  "node_key (n\<lparr>left := x\<rparr>) = node_key n" "node_key (n\<lparr>right := x\<rparr>) = node_key n"
  by (simp_all add: node_key_def)

lemma add_entry_room:
  assumes "nextCode s < MAX_CODES" "length (heap s) < mem" "p < length (heap s)"
  shows "add_entry mem s p c =
           Inr (s\<lparr>heap := add_heap (heap s) p (new_node s c), nextCode := nextCode s + 1\<rparr>)"
  using assms
  by (simp add: add_entry_def MakeNode_def add_heap_def new_node_def node_key_def nth_append)

lemma add_entry_nomem:
  assumes "nextCode s < MAX_CODES" "\<not> length (heap s) < mem"
  shows "add_entry mem s p c = Inl (AllocFailure, s)"
  using assms by (simp add: add_entry_def MakeNode_def)

lemma add_entry_full:
  assumes "\<not> nextCode s < MAX_CODES"
  shows "add_entry mem s p c = Inr (s\<lparr>stderr := stderr s @ [dictionary_full]\<rparr>)"
  using assms by (simp add: add_entry_def)

lemma length_add_heap [simp]: "length (add_heap h p n) = Suc (length h)"
  by (simp add: add_heap_def)

lemma add_heap_nth_old:
  "i < length h \<Longrightarrow> i \<noteq> p \<Longrightarrow> add_heap h p n ! i = h ! i"
  by (simp add: add_heap_def nth_append)

lemma add_heap_nth_new:
  "p < length h \<Longrightarrow> add_heap h p n ! length h = n"
  by (simp add: add_heap_def nth_append)

lemma add_heap_nth_p:
  "p < length h \<Longrightarrow> add_heap h p n ! p =
     (if node_key n < node_key (h ! p) then (h ! p)\<lparr>left := Some (length h)\<rparr>
      else (h ! p)\<lparr>right := Some (length h)\<rparr>)"
  by (simp add: add_heap_def)

lemma add_heap_entry_old:
  "p < length h \<Longrightarrow> i < length h \<Longrightarrow> entry_of (add_heap h p n ! i) = entry_of (h ! i)"
  by (cases "i = p") (simp_all add: add_heap_nth_old add_heap_nth_p entry_of_def)

lemma add_heap_key_old:
  "p < length h \<Longrightarrow> i < length h \<Longrightarrow> node_key (add_heap h p n ! i) = node_key (h ! i)"
  by (cases "i = p") (simp_all add: add_heap_nth_old add_heap_nth_p)

lemma map_entry_add_heap:
  assumes "p < length h"
  shows "map entry_of (add_heap h p n) = map entry_of h @ [entry_of n]"
proof (rule nth_equalityI)
  show "length (map entry_of (add_heap h p n)) = length (map entry_of h @ [entry_of n])"
    by simp
next
  fix i assume "i < length (map entry_of (add_heap h p n))"
  then have "i < length h \<or> i = length h" by auto
  then show "map entry_of (add_heap h p n) ! i = (map entry_of h @ [entry_of n]) ! i"
    using assms by (auto simp: nth_append add_heap_entry_old add_heap_nth_new)
qed

lemma heap_ext_add_heap:
  assumes p: "p < length h"
    and l: "node_key n < node_key (h ! p) \<Longrightarrow> left (h ! p) = None"
    and r: "\<not> node_key n < node_key (h ! p) \<Longrightarrow> right (h ! p) = None"
  shows "heap_ext h (add_heap h p n)"
  unfolding heap_ext_def
proof (intro conjI allI impI)
  show "length h \<le> length (add_heap h p n)" by simp
next
  fix i assume "i < length h"
  with p show "node_key (add_heap h p n ! i) = node_key (h ! i)"
    by (simp add: add_heap_key_old)
next
  fix i k assume i: "i < length h" and k: "left (h ! i) = Some k"
  show "left (add_heap h p n ! i) = Some k"
  proof (cases "i = p")
    case True
    with k l p show ?thesis by (auto simp: add_heap_nth_p)
  next
    case False
    with i k show ?thesis by (simp add: add_heap_nth_old)
  qed
next
  fix i k assume i: "i < length h" and k: "right (h ! i) = Some k"
  show "right (add_heap h p n ! i) = Some k"
  proof (cases "i = p")
    case True
    with k r p show ?thesis by (auto simp: add_heap_nth_p)
  next
    case False
    with i k show ?thesis by (simp add: add_heap_nth_old)
  qed
qed

lemma heap_wf_add_heap:
  assumes wf: "heap_wf h" and p: "p < length h"
    and n: "left n = None" "right n = None"
  shows "heap_wf (add_heap h p n)"
  unfolding heap_wf_def
proof (intro allI impI)
  fix i assume "i < length (add_heap h p n)"
  then consider "i = length h" | "i < length h" "i \<noteq> p" | "i = p"
    using p by fastforce
  then show "(\<forall>j. left (add_heap h p n ! i) = Some j \<longrightarrow> i < j \<and> j < length (add_heap h p n)) \<and>
             (\<forall>j. right (add_heap h p n ! i) = Some j \<longrightarrow> i < j \<and> j < length (add_heap h p n))"
  proof cases
    case 1
    with p n show ?thesis by (simp add: add_heap_nth_new)
  next
    case 2
    then have "add_heap h p n ! i = h ! i" by (simp add: add_heap_nth_old)
    moreover have "\<And>j. left (h ! i) = Some j \<Longrightarrow> i < j \<and> j < length h"
      using wf 2(1) by (rule heap_wf_left)
    moreover have "\<And>j. right (h ! i) = Some j \<Longrightarrow> i < j \<and> j < length h"
      using wf 2(1) by (rule heap_wf_right)
    ultimately show ?thesis by (simp add: less_Suc_eq)
  next
    case 3
    have "\<And>j. left (h ! p) = Some j \<Longrightarrow> p < j \<and> j < length h"
      using wf p by (rule heap_wf_left)
    moreover have "\<And>j. right (h ! p) = Some j \<Longrightarrow> p < j \<and> j < length h"
      using wf p by (rule heap_wf_right)
    ultimately show ?thesis using 3 p
      by (auto simp: add_heap_nth_p less_Suc_eq)
  qed
qed

lemma search_ok_add_heap:
  assumes wf: "heap_wf h" and ok: "search_ok h" and h: "h \<noteq> []"
    and res: "FindLoop h 0 (node_key n) = Some (Inr p)"
    and post: "find_post h (node_key n) p"
    and ne: "node_key (h ! p) \<noteq> node_key n"
  shows "search_ok (add_heap h p n)"
  unfolding search_ok_def
proof (intro allI impI)
  fix j assume "j < length (add_heap h p n)"
  then have j: "j < length h \<or> j = length h" by auto
  from post have p: "p < length h" by (simp add: find_post_def)
  from post ne have l: "node_key n < node_key (h ! p) \<Longrightarrow> left (h ! p) = None"
    and r: "\<not> node_key n < node_key (h ! p) \<Longrightarrow> right (h ! p) = None"
    by (auto simp: find_post_def)
  have ext: "heap_ext h (add_heap h p n)"
    using p l r by (rule heap_ext_add_heap)
  from h have z: "0 < length h" by simp
  from j show "FindLoop (add_heap h p n) 0 (node_key (add_heap h p n ! j)) = Some (Inr j)"
  proof
    assume jl: "j < length h"
    with ok have "FindLoop h 0 (node_key (h ! j)) = Some (Inr j)"
      by (simp add: search_ok_def)
    from FindLoop_ext_found [OF wf ext z this refl] p jl show ?thesis
      by (simp add: add_heap_key_old)
  next
    assume jn: "j = length h"
    have "FindLoop (add_heap h p n) 0 (node_key n) = Some (Inr (length h))"
    proof (rule FindLoop_ext_new [OF wf ext _ _ p ne _ _ z res])
      show "length h < length (add_heap h p n)" by simp
      show "node_key (add_heap h p n ! length h) = node_key n"
        using p by (simp add: add_heap_nth_new)
      show "left (add_heap h p n ! p) = Some (length h)" if "node_key n < node_key (h ! p)"
        using that p by (simp add: add_heap_nth_p)
      show "right (add_heap h p n ! p) = Some (length h)" if "\<not> node_key n < node_key (h ! p)"
        using that p by (simp add: add_heap_nth_p)
    qed
    with jn p show ?thesis by (simp add: add_heap_nth_new)
  qed
qed

subsection \<open>Code lengths and the loop of the escape codes\<close>

lemma unat_inc: "unat (w :: uchar) < 20 \<Longrightarrow> unat (w + 1) = Suc (unat w)"
  by (simp add: unat_word_ariths)

lemma unat_CMC:
  assumes "unat BITS \<le> 20"
  shows "unat (CURRENT_MAX_CODES BITS) = 2 ^ unat BITS"
proof -
  have "(2::nat) ^ unat BITS \<le> 2 ^ 20"
    using assms by (intro power_increasing) simp_all
  then have "(2::nat) ^ unat BITS < 2 ^ 32"
    by simp
  then have "take_bit 32 ((2::nat) ^ unat BITS) = 2 ^ unat BITS"
    by (simp only: take_bit_nat_eq_self)
  moreover have "unat (push_bit (unat BITS) (1::uint))
      = take_bit LENGTH(32) (push_bit (unat BITS) (unat (1::uint)))"
    by (rule unsigned_push_bit_eq)
  ultimately show ?thesis
    by (simp add: CURRENT_MAX_CODES_def)
qed

lemma unat_escape:
  assumes "unat BITS \<le> 20"
  shows "unat (CURRENT_MAX_CODES BITS - 1) = 2 ^ unat BITS - 1"
proof -
  have "unat (CURRENT_MAX_CODES BITS) \<noteq> 0"
    using assms by (simp add: unat_CMC)
  then have "CURRENT_MAX_CODES BITS \<noteq> 0"
    by (metis unat_0)
  then show ?thesis
    using assms by (simp add: unat_minus_one unat_CMC)
qed

lemma escape_mono:
  assumes "unat w < 20"
  shows "CURRENT_MAX_CODES w - 1 \<le> CURRENT_MAX_CODES (w + 1) - 1"
proof -
  have "(2::nat) ^ unat w \<le> 2 ^ Suc (unat w)"
    by simp
  then have "(2::nat) ^ unat w - 1 \<le> 2 ^ Suc (unat w) - 1"
    by (rule diff_le_mono)
  with assms show ?thesis
    by (simp add: word_le_nat_alt unat_escape unat_inc)
qed

lemma escalate_unfold: "escalate s = (if esc_cond s then escalate (esc_body s) else s)"
  by (subst escalate.simps) (simp only: esc_cond_def esc_body_def)

lemma escalate_induct [consumes 1, case_names stop step]:
  assumes "P s"
    and stop: "\<And>s. P s \<Longrightarrow> \<not> esc_cond s \<Longrightarrow> Q s s"
    and step: "\<And>s. P s \<Longrightarrow> esc_cond s \<Longrightarrow> P (esc_body s)"
    and trans: "\<And>s t. P s \<Longrightarrow> esc_cond s \<Longrightarrow> Q (esc_body s) t \<Longrightarrow> Q s t"
  shows "Q s (escalate s)"
  using assms(1)
proof (induction s rule: escalate.induct)
  case (1 s)
  show ?case
  proof (cases "esc_cond s")
    case True
    then have c: "CURRENT_MAX_CODES (currentCodeLen s) - 1 \<le> code s \<and>
         unat (currentCodeLen s) < MAX_CODE_LEN"
      by (simp add: esc_cond_def)
    have "P (esc_body s)" using "1.prems" True by (rule step)
    then have "Q (esc_body s) (escalate (esc_body s))"
      using "1.IH" [OF c] by (simp add: esc_body_def)
    with "1.prems" True have "Q s (escalate (esc_body s))" by (rule trans)
    with True show ?thesis by (subst escalate_unfold) simp
  next
    case False
    with "1.prems" have "Q s s" by (rule stop)
    with False show ?thesis by (subst escalate_unfold) simp
  qed
qed

lemma esc_body_fields [simp]:
  "heap (esc_body s) = heap s" "dictRoot (esc_body s) = dictRoot s" "code (esc_body s) = code s"
  "nextCode (esc_body s) = nextCode s" "stderr (esc_body s) = stderr s"
  "currentCodeLen (esc_body s) = currentCodeLen s + 1"
  "bfpOut (esc_body s) = bfpOut s @ [(CURRENT_MAX_CODES (currentCodeLen s) - 1, currentCodeLen s)]"
  by (simp_all add: esc_body_def PutCodeWord_def)

lemma escalate_fields:
  "heap (escalate s) = heap s \<and> dictRoot (escalate s) = dictRoot s \<and>
   code (escalate s) = code s \<and> nextCode (escalate s) = nextCode s \<and>
   stderr (escalate s) = stderr s"
proof -
  have "(\<lambda>s t. heap t = heap s \<and> dictRoot t = dictRoot s \<and> code t = code s \<and>
          nextCode t = nextCode s \<and> stderr t = stderr s) s (escalate s)"
    by (rule escalate_induct [where P = "\<lambda>s. True"]) simp_all
  then show ?thesis by simp
qed

lemma escalate_exit: "\<not> esc_cond (escalate s)"
proof -
  have "(\<lambda>s t. \<not> esc_cond t) s (escalate s)"
    by (rule escalate_induct [where P = "\<lambda>s. True"]) simp_all
  then show ?thesis by simp
qed

subsection \<open>The code words written\<close>

lemma emitted_ok_mono: "emitted_ok nc e \<Longrightarrow> nc \<le> nc' \<Longrightarrow> emitted_ok nc' e"
  unfolding emitted_ok_def by auto

lemma successively_snoc:
  "xs \<noteq> [] \<Longrightarrow> successively P (xs @ [x]) \<longleftrightarrow> successively P xs \<and> P (last xs) x"
  by (simp add: successively_append_iff)

lemma trace_step:
  assumes t: "trace_ok s" and l: "last_code s \<or> last_escape s" and c: "esc_cond s"
  shows "trace_ok (esc_body s) \<and> last_escape (esc_body s)"
proof -
  let ?w = "currentCodeLen s"
  let ?e = "(CURRENT_MAX_CODES ?w - 1, ?w)"
  from t have ne: "bfpOut s \<noteq> []" and hd: "snd (hd (bfpOut s)) = 9"
    and su: "successively emit_rel (bfpOut s)"
    and em: "\<forall>e\<in>set (bfpOut s). emitted_ok (nextCode s) e" and w: "width_ok s"
    by (simp_all add: trace_ok_def)
  from c have lt: "unat ?w < 20" and le: "CURRENT_MAX_CODES ?w - 1 \<le> code s"
    by (simp_all add: esc_cond_def MAX_CODE_LEN_def)
  have rel: "emit_rel (last (bfpOut s)) ?e"
    using l
  proof
    assume "last_code s"
    then show ?thesis by (auto simp: last_code_def emit_rel_def)
  next
    assume a: "last_escape s"
    then have "unat (snd (last (bfpOut s))) < 20"
      by (simp add: last_escape_def MAX_CODE_LEN_def)
    from escape_mono [OF this] a show ?thesis
      by (auto simp: last_escape_def emit_rel_def)
  qed
  have "emitted_ok (nextCode s) ?e"
    using w lt by (simp add: emitted_ok_def width_ok_def MAX_CODE_LEN_def)
  moreover have "width_ok (esc_body s)"
    using w lt by (simp add: width_ok_def unat_inc)
  ultimately have "trace_ok (esc_body s)"
    using ne hd su em rel by (simp add: trace_ok_def successively_snoc)
  moreover have "last_escape (esc_body s)"
    using lt le by (simp add: last_escape_def MAX_CODE_LEN_def)
  ultimately show ?thesis ..
qed

lemma escalate_trace:
  assumes "trace_ok s \<and> (last_code s \<or> last_escape s)"
  shows "trace_ok (escalate s) \<and> (last_code (escalate s) \<or> last_escape (escalate s))"
proof -
  have "(\<lambda>s t. trace_ok t \<and> (last_code t \<or> last_escape t)) s (escalate s)"
    using assms
  proof (rule escalate_induct)
    fix s assume "trace_ok s \<and> (last_code s \<or> last_escape s)" "esc_cond s"
    then show "trace_ok (esc_body s) \<and> (last_code (esc_body s) \<or> last_escape (esc_body s))"
      using trace_step [of s] by blast
  qed
  then show ?thesis .
qed

lemma emit_code_trace:
  assumes t: "trace_ok s" and l: "last_code s \<or> last_escape s" and c: "\<not> esc_cond s"
    and n: "code s < nextCode s"
  shows "trace_ok (PutCodeWord (code s) (currentCodeLen s) s)
         \<and> last_code (PutCodeWord (code s) (currentCodeLen s) s)"
proof -
  let ?w = "currentCodeLen s"
  let ?e = "(code s, ?w)"
  let ?t = "PutCodeWord (code s) (currentCodeLen s) s"
  from t have ne: "bfpOut s \<noteq> []" and hd: "snd (hd (bfpOut s)) = 9"
    and su: "successively emit_rel (bfpOut s)"
    and em: "\<forall>e\<in>set (bfpOut s). emitted_ok (nextCode s) e" and w: "width_ok s"
    by (simp_all add: trace_ok_def)
  have rel: "emit_rel (last (bfpOut s)) ?e"
    using l by (auto simp: last_code_def last_escape_def emit_rel_def)
  have "emitted_ok (nextCode s) ?e"
    using w n by (simp add: emitted_ok_def width_ok_def MAX_CODE_LEN_def)
  then have "trace_ok ?t"
    using ne hd su em rel w
    by (simp add: trace_ok_def successively_snoc PutCodeWord_def width_ok_def)
  moreover have "last_code ?t"
    using c w by (auto simp: last_code_def PutCodeWord_def esc_cond_def width_ok_def MAX_CODE_LEN_def)
  ultimately show ?thesis ..
qed

subsection \<open>One turn of the main loop\<close>

lemma running_step_cases:
  assumes "FindLoop (heap s) 0 (MakeKey (code s) c) = Some (Inr p)" "p < length (heap s)"
    "dictRoot s = Some 0"
  shows "running_step mem s c =
     (if pair_of (heap s ! p) = (code s, c)
      then Some (Inr (s\<lparr>code := codeWord (heap s ! p)\<rparr>))
      else (case add_entry mem s p c of
              Inl e \<Rightarrow> Some (Inl e)
            | Inr s1 \<Rightarrow> Some (Inr (emit_next s1 c))))"
  using assms
  by (auto simp: running_step_def FindDictionaryEntry_def pair_of_def emit_next_def Let_def
      split: sum.split)

lemma find_running:
  assumes "tree_ok s"
  shows "\<exists>p. FindLoop (heap s) 0 k = Some (Inr p) \<and> find_post (heap s) k p"
proof -
  from assms have "heap_wf (heap s)" "0 < length (heap s)"
    by (simp_all add: tree_ok_def)
  then show ?thesis by (rule FindLoop_total)
qed

lemma ucast_byte_small: "unat (ucast (c :: uchar) :: uint) < 256"
proof -
  have b: "unat c < 256"
    using unsigned_less [of c, where 'a = nat] by simp
  then have "take_bit 32 (unat c) = unat c"
    by (simp add: take_bit_nat_eq_self)
  moreover have "unat (ucast c :: uint) = take_bit LENGTH(32) (unat c)"
    by (rule unsigned_ucast_eq)
  ultimately show ?thesis using b by simp
qed

lemma trace_ok_code [simp]: "trace_ok (s\<lparr>code := x\<rparr>) = trace_ok s"
  by (simp add: trace_ok_def width_ok_def)

lemma last_code_code [simp]: "last_code (s\<lparr>code := x\<rparr>) = last_code s"
  by (simp add: last_code_def)

lemma trace_ok_stderr [simp]: "trace_ok (s\<lparr>stderr := x\<rparr>) = trace_ok s"
  by (simp add: trace_ok_def width_ok_def)

lemma last_code_stderr [simp]: "last_code (s\<lparr>stderr := x\<rparr>) = last_code s"
  by (simp add: last_code_def)

lemma last_code_heap [simp]: "last_code (s\<lparr>heap := x, nextCode := y\<rparr>) = last_code s"
  by (simp add: last_code_def)

lemma emit_next_props:
  assumes t: "trace_ok s1" and l: "last_code s1" and n: "code s1 < nextCode s1"
  shows "trace_ok (emit_next s1 c) \<and> last_code (emit_next s1 c) \<and>
         heap (emit_next s1 c) = heap s1 \<and> dictRoot (emit_next s1 c) = dictRoot s1 \<and>
         nextCode (emit_next s1 c) = nextCode s1 \<and> stderr (emit_next s1 c) = stderr s1 \<and>
         code (emit_next s1 c) = ucast c"
proof -
  let ?s2 = "escalate s1"
  from t l have "trace_ok ?s2 \<and> (last_code ?s2 \<or> last_escape ?s2)"
    by (intro escalate_trace) simp
  moreover have "\<not> esc_cond ?s2" by (rule escalate_exit)
  moreover have "code ?s2 < nextCode ?s2" using n by (simp add: escalate_fields)
  ultimately have "trace_ok (PutCodeWord (code ?s2) (currentCodeLen ?s2) ?s2)
         \<and> last_code (PutCodeWord (code ?s2) (currentCodeLen ?s2) ?s2)"
    by (intro emit_code_trace) simp_all
  then show ?thesis
    by (simp add: emit_next_def Let_def escalate_fields PutCodeWord_def)
qed

lemma codes_okI:
  assumes "unat (nextCode s) = 256 + length (heap s)" "256 + length (heap s) \<le> 2 ^ 20"
    "\<And>i. i < length (heap s) \<Longrightarrow> unat (codeWord (heap s ! i)) = 256 + i"
    "\<And>i. i < length (heap s) \<Longrightarrow> prefixCode (heap s ! i) < codeWord (heap s ! i)"
    "code s < nextCode s"
  shows "codes_ok s"
  unfolding codes_ok_def using assms by blast

lemma running_invD:
  assumes "running_inv s"
  shows "tree_ok s" "codes_ok s" "search_ok (heap s)" "distinct (map pair_of (heap s))"
    "trace_ok s" "last_code s"
  using assms by (simp_all add: running_inv_def)

lemma match_iff:
  assumes inv: "running_inv s"
    and res: "FindLoop (heap s) 0 (MakeKey (code s) c) = Some (Inr p)"
    and p: "p < length (heap s)"
  shows "pair_of (heap s ! p) = (code s, c) \<longleftrightarrow> (code s, c) \<in> set (map pair_of (heap s))"
proof
  assume "pair_of (heap s ! p) = (code s, c)"
  with p show "(code s, c) \<in> set (map pair_of (heap s))"
    by (metis length_map nth_map nth_mem)
next
  assume "(code s, c) \<in> set (map pair_of (heap s))"
  then obtain j where j: "j < length (heap s)" "pair_of (heap s ! j) = (code s, c)"
    by (auto simp: in_set_conv_nth)
  then have "node_key (heap s ! j) = MakeKey (code s) c"
    by (simp add: node_key_def pair_of_def)
  moreover have "FindLoop (heap s) 0 (node_key (heap s ! j)) = Some (Inr j)"
    using running_invD(3) [OF inv] j(1) by (simp add: search_ok_def)
  ultimately have "j = p" using res by simp
  with j show "pair_of (heap s ! p) = (code s, c)" by simp
qed

lemma nomatch_key:
  assumes ok: "codes_ok s" and p: "p < length (heap s)"
    and ne: "pair_of (heap s ! p) \<noteq> (code s, c)"
  shows "node_key (heap s ! p) \<noteq> MakeKey (code s) c"
proof
  assume "node_key (heap s ! p) = MakeKey (code s) c"
  then have "MakeKey (prefixCode (heap s ! p)) (suffixChar (heap s ! p)) = MakeKey (code s) c"
    by (simp add: node_key_def)
  from MakeKey_inj [OF codes_ok_prefix_small [OF ok p] codes_ok_code_small [OF ok] this] ne
  show False by (simp add: pair_of_def)
qed

lemma unat_next_inc:
  assumes "nextCode s < MAX_CODES"
  shows "unat (nextCode s + 1) = Suc (unat (nextCode s))"
proof -
  from assms have "unat (nextCode s) < 2 ^ 20"
    by (simp add: word_less_nat_alt unat_MAX_CODES)
  then show ?thesis by (simp add: unat_word_ariths)
qed

lemma running_inv_match:
  assumes inv: "running_inv s" and p: "p < length (heap s)"
  shows "running_inv (s\<lparr>code := codeWord (heap s ! p)\<rparr>)"
proof -
  note d = running_invD [OF inv]
  have "codes_ok (s\<lparr>code := codeWord (heap s ! p)\<rparr>)"
  proof (rule codes_okI)
    show "code (s\<lparr>code := codeWord (heap s ! p)\<rparr>) < nextCode (s\<lparr>code := codeWord (heap s ! p)\<rparr>)"
      using p by (simp add: word_less_nat_alt codes_ok_codeWord [OF d(2) p] codes_ok_next [OF d(2)])
    show "256 + length (heap (s\<lparr>code := codeWord (heap s ! p)\<rparr>)) \<le> 2 ^ 20"
      using codes_ok_bound [OF d(2)] by simp
  qed (simp_all add: codes_ok_next [OF d(2)] codes_ok_codeWord [OF d(2)]
        codes_ok_prefix [OF d(2)])
  with d show ?thesis
    by (simp add: running_inv_def tree_ok_def)
qed

lemma map_pair_add_heap:
  assumes "p < length h"
  shows "map pair_of (add_heap h p n) = map pair_of h @ [pair_of n]"
proof -
  have "pair_of = snd \<circ> entry_of"
    by (rule ext) (simp add: pair_of_def entry_of_def)
  then have "map pair_of (add_heap h p n) = map snd (map entry_of (add_heap h p n))"
    by simp
  also have "\<dots> = map snd (map entry_of h @ [entry_of n])"
    using assms by (simp only: map_entry_add_heap)
  also have "\<dots> = map pair_of h @ [pair_of n]"
    by (simp add: pair_of_def entry_of_def)
  finally show ?thesis .
qed

lemma running_inv_add:
  assumes inv: "running_inv s"
    and res: "FindLoop (heap s) 0 (MakeKey (code s) c) = Some (Inr p)"
    and post: "find_post (heap s) (MakeKey (code s) c) p"
    and ne: "pair_of (heap s ! p) \<noteq> (code s, c)"
    and room: "nextCode s < MAX_CODES"
  shows "running_inv
           (emit_next (s\<lparr>heap := add_heap (heap s) p (new_node s c), nextCode := nextCode s + 1\<rparr>) c)"
proof -
  note d = running_invD [OF inv]
  let ?h = "heap s"
  let ?n = "new_node s c"
  let ?h' = "add_heap ?h p ?n"
  let ?s1 = "s\<lparr>heap := ?h', nextCode := nextCode s + 1\<rparr>"
  let ?s' = "emit_next ?s1 c"
  from post have p: "p < length ?h" by (simp add: find_post_def)
  from d(1) have wf: "heap_wf ?h" and nonempty: "?h \<noteq> []" and root: "dictRoot s = Some 0"
    by (simp_all add: tree_ok_def)
  have key: "node_key (?h ! p) \<noteq> node_key ?n"
    using nomatch_key [OF d(2) p ne] by simp
  have inc: "unat (nextCode s + 1) = Suc (unat (nextCode s))"
    using room by (rule unat_next_inc)
  have lt: "unat (nextCode s) < 2 ^ 20"
    using room by (simp add: word_less_nat_alt unat_MAX_CODES)
  have mono: "nextCode s \<le> nextCode s + 1"
    by (simp add: word_le_nat_alt inc)
  have code1: "code s < nextCode s + 1"
    using codes_ok_code [OF d(2)] mono by simp
  \<comment> \<open>the output\<close>
  have "trace_ok ?s1"
    using d(5) mono by (auto simp: trace_ok_def width_ok_def intro: emitted_ok_mono)
  moreover have "last_code ?s1" using d(6) by simp
  moreover have "code ?s1 < nextCode ?s1" using code1 by simp
  ultimately have e: "trace_ok ?s' \<and> last_code ?s' \<and> heap ?s' = heap ?s1 \<and>
      dictRoot ?s' = dictRoot ?s1 \<and> nextCode ?s' = nextCode ?s1 \<and> stderr ?s' = stderr ?s1 \<and>
      code ?s' = ucast c"
    by (rule emit_next_props)
  \<comment> \<open>the tree\<close>
  have "heap_wf ?h'"
    using wf p by (rule heap_wf_add_heap) (simp_all add: new_node_def)
  then have tree: "tree_ok ?s'"
    using e root by (simp add: tree_ok_def add_heap_def)
  have search: "search_ok ?h'"
    using wf d(3) nonempty _ _ key
  proof (rule search_ok_add_heap)
    show "FindLoop ?h 0 (node_key ?n) = Some (Inr p)" using res by simp
    show "find_post ?h (node_key ?n) p" using post by simp
  qed
  \<comment> \<open>the codes\<close>
  have "(code s, c) \<notin> set (map pair_of ?h)"
    using match_iff [OF inv res p] ne by simp
  then have dist: "distinct (map pair_of ?h')"
    using d(4) p by (simp add: map_pair_add_heap pair_of_def new_node_def)
  have codes: "codes_ok ?s'"
  proof (rule codes_okI)
    show "unat (nextCode ?s') = 256 + length (heap ?s')"
      using e inc by (simp add: codes_ok_next [OF d(2)])
    show "256 + length (heap ?s') \<le> 2 ^ 20"
      using e lt by (simp add: codes_ok_next [OF d(2)])
    show "code ?s' < nextCode ?s'"
      using e inc ucast_byte_small [of c]
      by (simp add: word_less_nat_alt codes_ok_next [OF d(2)])
  next
    fix i assume "i < length (heap ?s')"
    with e have "i < length ?h \<or> i = length ?h" by auto
    then have "unat (codeWord (?h' ! i)) = 256 + i \<and> prefixCode (?h' ! i) < codeWord (?h' ! i)"
    proof
      assume i: "i < length ?h"
      have "entry_of (?h' ! i) = entry_of (?h ! i)"
        using p i by (rule add_heap_entry_old)
      then have "codeWord (?h' ! i) = codeWord (?h ! i)" "prefixCode (?h' ! i) = prefixCode (?h ! i)"
        by (simp_all add: entry_of_def)
      then show ?thesis
        using i by (simp add: codes_ok_codeWord [OF d(2)] codes_ok_prefix [OF d(2)])
    next
      assume i: "i = length ?h"
      then have "?h' ! i = ?n" using p by (simp add: add_heap_nth_new)
      then show ?thesis
        using i codes_ok_code [OF d(2)] by (simp add: new_node_def codes_ok_next [OF d(2)])
    qed
    with e show "unat (codeWord (heap ?s' ! i)) = 256 + i"
      and "prefixCode (heap ?s' ! i) < codeWord (heap ?s' ! i)"
      by simp_all
  qed
  from tree codes search dist e show ?thesis
    by (simp add: running_inv_def)
qed

lemma running_inv_full:
  assumes inv: "running_inv s"
  shows "running_inv (emit_next (s\<lparr>stderr := stderr s @ [dictionary_full]\<rparr>) c)"
proof -
  note d = running_invD [OF inv]
  let ?s1 = "s\<lparr>stderr := stderr s @ [dictionary_full]\<rparr>"
  let ?s' = "emit_next ?s1 c"
  have "trace_ok ?s1" "last_code ?s1" "code ?s1 < nextCode ?s1"
    using d(5,6) codes_ok_code [OF d(2)] by simp_all
  then have e: "trace_ok ?s' \<and> last_code ?s' \<and> heap ?s' = heap ?s1 \<and>
      dictRoot ?s' = dictRoot ?s1 \<and> nextCode ?s' = nextCode ?s1 \<and> stderr ?s' = stderr ?s1 \<and>
      code ?s' = ucast c"
    by (rule emit_next_props)
  have "codes_ok ?s'"
  proof (rule codes_okI)
    show "code ?s' < nextCode ?s'"
      using e ucast_byte_small [of c] by (simp add: word_less_nat_alt codes_ok_next [OF d(2)])
    show "256 + length (heap ?s') \<le> 2 ^ 20"
      using e codes_ok_bound [OF d(2)] by simp
  qed (use e in \<open>simp_all add: codes_ok_next [OF d(2)]
        codes_ok_codeWord [OF d(2)] codes_ok_prefix [OF d(2)]\<close>)
  with d e show ?thesis
    by (simp add: running_inv_def tree_ok_def)
qed

lemma running_step_result:
  assumes inv: "running_inv s"
  shows "\<exists>p. FindLoop (heap s) 0 (MakeKey (code s) c) = Some (Inr p) \<and>
           find_post (heap s) (MakeKey (code s) c) p \<and>
           (pair_of (heap s ! p) = (code s, c) \<longleftrightarrow> (code s, c) \<in> set (map pair_of (heap s))) \<and>
           running_step mem s c =
             (if (code s, c) \<in> set (map pair_of (heap s))
              then Some (Inr (s\<lparr>code := codeWord (heap s ! p)\<rparr>))
              else if nextCode s < MAX_CODES
              then (if length (heap s) < mem
                    then Some (Inr (emit_next (s\<lparr>heap := add_heap (heap s) p (new_node s c),
                                                  nextCode := nextCode s + 1\<rparr>) c))
                    else Some (Inl (AllocFailure, s)))
              else Some (Inr (emit_next (s\<lparr>stderr := stderr s @ [dictionary_full]\<rparr>) c)))"
proof -
  note d = running_invD [OF inv]
  from find_running [OF d(1)] obtain p
    where res: "FindLoop (heap s) 0 (MakeKey (code s) c) = Some (Inr p)"
      and post: "find_post (heap s) (MakeKey (code s) c) p"
    by blast
  from post have p: "p < length (heap s)" by (simp add: find_post_def)
  from d(1) have root: "dictRoot s = Some 0" by (simp add: tree_ok_def)
  note m = match_iff [OF inv res p]
  have "running_step mem s c =
             (if (code s, c) \<in> set (map pair_of (heap s))
              then Some (Inr (s\<lparr>code := codeWord (heap s ! p)\<rparr>))
              else if nextCode s < MAX_CODES
              then (if length (heap s) < mem
                    then Some (Inr (emit_next (s\<lparr>heap := add_heap (heap s) p (new_node s c),
                                                  nextCode := nextCode s + 1\<rparr>) c))
                    else Some (Inl (AllocFailure, s)))
              else Some (Inr (emit_next (s\<lparr>stderr := stderr s @ [dictionary_full]\<rparr>) c)))"
    using p
    by (simp add: running_step_cases [OF res p root] m add_entry_room add_entry_nomem
        add_entry_full del: set_map)
  with res post m show ?thesis by blast
qed

lemma running_step_inv:
  assumes inv: "running_inv s" and step: "running_step mem s c = Some (Inr s')"
  shows "running_inv s'"
proof -
  from running_step_result [OF inv, of c mem] obtain p
    where res: "FindLoop (heap s) 0 (MakeKey (code s) c) = Some (Inr p)"
      and post: "find_post (heap s) (MakeKey (code s) c) p"
      and m: "pair_of (heap s ! p) = (code s, c) \<longleftrightarrow> (code s, c) \<in> set (map pair_of (heap s))"
      and r: "running_step mem s c =
             (if (code s, c) \<in> set (map pair_of (heap s))
              then Some (Inr (s\<lparr>code := codeWord (heap s ! p)\<rparr>))
              else if nextCode s < MAX_CODES
              then (if length (heap s) < mem
                    then Some (Inr (emit_next (s\<lparr>heap := add_heap (heap s) p (new_node s c),
                                                  nextCode := nextCode s + 1\<rparr>) c))
                    else Some (Inl (AllocFailure, s)))
              else Some (Inr (emit_next (s\<lparr>stderr := stderr s @ [dictionary_full]\<rparr>) c)))"
    by blast
  from post have p: "p < length (heap s)" by (simp add: find_post_def)
  consider (match) "(code s, c) \<in> set (map pair_of (heap s))"
    | (add) "(code s, c) \<notin> set (map pair_of (heap s))" "nextCode s < MAX_CODES"
    | (full) "(code s, c) \<notin> set (map pair_of (heap s))" "\<not> nextCode s < MAX_CODES"
    by blast
  then show ?thesis
  proof cases
    case match
    with r step have "s' = s\<lparr>code := codeWord (heap s ! p)\<rparr>" by (simp del: set_map)
    with running_inv_match [OF inv p] show ?thesis by simp
  next
    case add
    with r step have "s' = emit_next (s\<lparr>heap := add_heap (heap s) p (new_node s c),
                                                  nextCode := nextCode s + 1\<rparr>) c"
      by (simp del: set_map split: if_splits)
    moreover from add m have "pair_of (heap s ! p) \<noteq> (code s, c)" by simp
    ultimately show ?thesis
      using running_inv_add [OF inv res post _ add(2)] by simp
  next
    case full
    with r step have "s' = emit_next (s\<lparr>stderr := stderr s @ [dictionary_full]\<rparr>) c"
      by (simp del: set_map)
    with running_inv_full [OF inv] show ?thesis by simp
  qed
qed

lemma running_step_total:
  assumes inv: "running_inv s"
  shows "(\<exists>s'. running_step mem s c = Some (Inr s')) \<or>
         running_step mem s c = Some (Inl (AllocFailure, s))"
proof -
  from running_step_result [OF inv, of c mem] obtain p
    where r: "running_step mem s c =
             (if (code s, c) \<in> set (map pair_of (heap s))
              then Some (Inr (s\<lparr>code := codeWord (heap s ! p)\<rparr>))
              else if nextCode s < MAX_CODES
              then (if length (heap s) < mem
                    then Some (Inr (emit_next (s\<lparr>heap := add_heap (heap s) p (new_node s c),
                                                  nextCode := nextCode s + 1\<rparr>) c))
                    else Some (Inl (AllocFailure, s)))
              else Some (Inr (emit_next (s\<lparr>stderr := stderr s @ [dictionary_full]\<rparr>) c)))"
    by blast
  then show ?thesis by (simp del: set_map split: if_splits)
qed

lemma running_total:
  "running_inv s \<Longrightarrow>
     (\<exists>s'. running mem s cs = Some (Inr s') \<and> running_inv s') \<or>
     (\<exists>s0. running mem s cs = Some (Inl (AllocFailure, s0)) \<and> running_inv s0)"
proof (induction cs arbitrary: s)
  case Nil
  then show ?case by simp
next
  case (Cons c cs)
  from running_step_total [OF Cons.prems, of mem c] show ?case
  proof
    assume "\<exists>s'. running_step mem s c = Some (Inr s')"
    then obtain s' where s': "running_step mem s c = Some (Inr s')" ..
    with Cons.prems have "running_inv s'" by (rule running_step_inv)
    from Cons.IH [OF this] s' show ?thesis by simp
  next
    assume "running_step mem s c = Some (Inl (AllocFailure, s))"
    with Cons.prems show ?thesis by simp
  qed
qed

subsection \<open>The first two bytes and the whole loop\<close>

lemma seed_eq:
  "seed mem (init_state\<lparr>code := ucast c0\<rparr>) c1 =
     (if 0 < mem then Inr (seed_state c0 c1)
      else Inl (AllocFailure, init_state\<lparr>code := ucast c0\<rparr>))"
  by (simp add: seed_def MakeNode_def init_state_def FIRST_CODE_def CHAR_BIT_def
      PutCodeWord_def seed_state_def)

lemma byte_less: "(ucast (c :: uchar) :: uint) < 256" "(ucast (c :: uchar) :: uint) < 257"
  "(ucast (c :: uchar) :: uint) < 511"
  using ucast_byte_small [of c] by (simp_all add: word_less_nat_alt)

lemma CMC_9: "CURRENT_MAX_CODES 9 = 512"
  by (simp add: CURRENT_MAX_CODES_def)

lemma running_inv_seed: "running_inv (seed_state c0 c1)"
proof -
  let ?n = "\<lparr>codeWord = 256, suffixChar = c1, prefixCode = ucast c0,
                left = None, right = None\<rparr> :: dict_node_t"
  have "heap_wf [?n]"
    by (simp add: heap_wf_def)
  then have "tree_ok (seed_state c0 c1)"
    by (simp add: tree_ok_def seed_state_def)
  moreover have "codes_ok (seed_state c0 c1)"
    by (rule codes_okI) (simp_all add: seed_state_def byte_less)
  moreover have "search_ok [?n]"
    by (simp add: search_ok_def FindLoop_unfold)
  moreover have "trace_ok (seed_state c0 c1)"
    by (simp add: trace_ok_def seed_state_def emitted_ok_def width_ok_def byte_less
        MAX_CODE_LEN_def)
  moreover have "last_code (seed_state c0 c1)"
    by (simp add: last_code_def seed_state_def CMC_9 byte_less)
  ultimately show ?thesis
    by (simp add: running_inv_def seed_state_def)
qed

lemma encode_input_simps:
  "encode_input mem [] = Some (Inl (EmptyFile, init_state))"
  "encode_input mem [c0] = Some (Inr (single_state c0))"
  "encode_input 0 (c0 # c1 # cs) = Some (Inl (AllocFailure, single_state c0))"
  "0 < mem \<Longrightarrow> encode_input mem (c0 # c1 # cs) = running mem (seed_state c0 c1) cs"
  by (simp_all add: encode_input_def seed_eq single_state_def)

lemma encode_input_cases:
  obtains (empty) "input = []" "encode_input mem input = Some (Inl (EmptyFile, init_state))"
  | (single) c0 where "input = [c0]" "encode_input mem input = Some (Inr (single_state c0))"
  | (nomem) s0 where "2 \<le> length input"
      "encode_input mem input = Some (Inl (AllocFailure, s0))"
  | (run) s where "2 \<le> length input" "encode_input mem input = Some (Inr s)" "running_inv s"
proof (cases input)
  case Nil
  then show ?thesis using empty by (simp add: encode_input_simps)
next
  case (Cons c0 rest)
  note c0 = this
  show ?thesis
  proof (cases rest)
    case Nil
    with c0 show ?thesis using single by (simp add: encode_input_simps)
  next
    case (Cons c1 cs)
    show ?thesis
    proof (cases "0 < mem")
      case False
      with c0 Cons show ?thesis using nomem [of "single_state c0"]
        by (simp add: encode_input_simps)
    next
      case True
      with c0 Cons have e: "encode_input mem input = running mem (seed_state c0 c1) cs"
        by (simp add: encode_input_simps)
      from running_total [OF running_inv_seed, of mem c0 c1 cs] show ?thesis
      proof
        assume "\<exists>s'. running mem (seed_state c0 c1) cs = Some (Inr s') \<and> running_inv s'"
        with e c0 Cons show ?thesis using run by auto
      next
        assume "\<exists>s0. running mem (seed_state c0 c1) cs = Some (Inl (AllocFailure, s0)) \<and>
          running_inv s0"
        with e c0 Cons show ?thesis using nomem by auto
      qed
    qed
  qed
qed

subsection \<open>The last code word\<close>

lemma LZWEncodeFile_eq:
  "LZWEncodeFile mem input =
     (case encode_input mem input of
        None \<Rightarrow> None
      | Some (Inl e) \<Rightarrow> Some (Inl e)
      | Some (Inr s) \<Rightarrow> Some (Inr (final_state s)))"
  by (simp add: LZWEncodeFile_def final_state_def split: option.split sum.split)

lemma final_state_fields [simp]:
  "heap (final_state s) = heap s" "dictRoot (final_state s) = dictRoot s"
  "code (final_state s) = code s" "nextCode (final_state s) = nextCode s"
  "stderr (final_state s) = stderr s" "currentCodeLen (final_state s) = currentCodeLen s"
  "bfpOut (final_state s) = bfpOut s @ [(code s, currentCodeLen s)]"
  by (simp_all add: final_state_def PutCodeWord_def)

text \<open>What a run that returns TRUE looks like: one byte, or a state of the loop.\<close>

lemma LZWEncodeFile_cases:
  obtains (empty) "input = []" "LZWEncodeFile mem input = Some (Inl (EmptyFile, init_state))"
  | (single) c0 where "input = [c0]"
      "LZWEncodeFile mem input = Some (Inr (final_state (single_state c0)))"
  | (nomem) s0 where "2 \<le> length input"
      "LZWEncodeFile mem input = Some (Inl (AllocFailure, s0))"
  | (run) s where "2 \<le> length input" "encode_input mem input = Some (Inr s)"
      "LZWEncodeFile mem input = Some (Inr (final_state s))" "running_inv s"
proof (cases mem input rule: encode_input_cases)
  case empty
  then show ?thesis using that(1) by (simp add: LZWEncodeFile_eq)
next
  case (single c0)
  then show ?thesis using that(2) by (simp add: LZWEncodeFile_eq)
next
  case (nomem s0)
  then show ?thesis using that(3) by (simp add: LZWEncodeFile_eq)
next
  case (run s)
  then show ?thesis using that(4) by (simp add: LZWEncodeFile_eq)
qed

lemma emit_rel_width_rel: "emit_rel e e' \<Longrightarrow> width_rel e e'"
  by (auto simp: emit_rel_def width_rel_def)

lemma final_trace:
  assumes "running_inv s"
  shows "successively emit_rel (bfpOut (final_state s))"
    and "snd (hd (bfpOut (final_state s))) = 9"
    and "\<forall>e\<in>set (bfpOut (final_state s)). 9 \<le> unat (snd e) \<and> unat (snd e) \<le> 20"
    and "\<forall>e\<in>set (bfpOut (final_state s)).
           fst e < nextCode s \<or> fst e = CURRENT_MAX_CODES (snd e) - 1"
proof -
  note d = running_invD [OF assms]
  from d(5) have ne: "bfpOut s \<noteq> []" and hd: "snd (hd (bfpOut s)) = 9"
    and su: "successively emit_rel (bfpOut s)"
    and em: "\<forall>e\<in>set (bfpOut s). emitted_ok (nextCode s) e" and w: "width_ok s"
    by (simp_all add: trace_ok_def)
  have "emit_rel (last (bfpOut s)) (code s, currentCodeLen s)"
    using d(6) by (auto simp: last_code_def emit_rel_def)
  with ne su show "successively emit_rel (bfpOut (final_state s))"
    by (simp add: successively_snoc)
  from ne hd show "snd (hd (bfpOut (final_state s))) = 9"
    by simp
  from em w show "\<forall>e\<in>set (bfpOut (final_state s)). 9 \<le> unat (snd e) \<and> unat (snd e) \<le> 20"
    by (auto simp: emitted_ok_def width_ok_def MAX_CODE_LEN_def)
  from em codes_ok_code [OF d(2)]
  show "\<forall>e\<in>set (bfpOut (final_state s)).
           fst e < nextCode s \<or> fst e = CURRENT_MAX_CODES (snd e) - 1"
    by (auto simp: emitted_ok_def)
qed

lemma single_state_fields [simp]:
  "heap (single_state c) = []" "dictRoot (single_state c) = None"
  "code (single_state c) = ucast c" "nextCode (single_state c) = 256"
  "stderr (single_state c) = []" "currentCodeLen (single_state c) = 9"
  "bfpOut (single_state c) = []"
  by (simp_all add: single_state_def init_state_def FIRST_CODE_def CHAR_BIT_def)

lemma emit_next_fields [simp]:
  "heap (emit_next s c) = heap s" "dictRoot (emit_next s c) = dictRoot s"
  "nextCode (emit_next s c) = nextCode s" "stderr (emit_next s c) = stderr s"
  "code (emit_next s c) = ucast c"
  by (simp_all add: emit_next_def Let_def escalate_fields PutCodeWord_def)

lemma entry_of_new_node [simp]: "entry_of (new_node s c) = (nextCode s, code s, c)"
  by (simp add: entry_of_def new_node_def)

subsection \<open>Small runs\<close>

lemmas run_defs = encode_input_def seed_def MakeNode_def init_state_def
  FIRST_CODE_def CHAR_BIT_def PutCodeWord_def running_step_def FindDictionaryEntry_def
  MakeKey_def MAX_CODE_LEN_def add_entry_def MAX_CODES_def CURRENT_MAX_CODES_def

lemma encode_AAAA:
  assumes "2 \<le> mem"
  shows "encode_input mem [65, 65, 65, 65] = Some (Inr AAAA_loop)"
proof -
  from assms have m: "0 < mem" "Suc 0 < mem" by simp_all
  show ?thesis
    by (simp add: run_defs FindLoop.simps escalate.simps AAAA_loop_def m)
qed

lemma run_AAAA:
  assumes "2 \<le> mem"
  shows "LZWEncodeFile mem [65, 65, 65, 65] = Some (Inr AAAA_final)"
  by (simp add: LZWEncodeFile_def encode_AAAA [OF assms] AAAA_final_def AAAA_loop_def
      PutCodeWord_def)




subsection \<open>A turn of the loop, by the strings in the dictionary\<close>

lemma esc_cond_update [simp]:
  "esc_cond (s\<lparr>heap := h, nextCode := n\<rparr>) = esc_cond s"
  "esc_cond (s\<lparr>stderr := e\<rparr>) = esc_cond s"
  by (simp_all add: esc_cond_def)

lemma esc_body_update:
  "esc_body (s\<lparr>heap := h, nextCode := n\<rparr>) = (esc_body s)\<lparr>heap := h, nextCode := n\<rparr>"
  "esc_body (s\<lparr>stderr := e\<rparr>) = (esc_body s)\<lparr>stderr := e\<rparr>"
  by (simp_all add: esc_body_def PutCodeWord_def)

lemma escalate_heap_update:
  "escalate (s\<lparr>heap := h, nextCode := n\<rparr>) = (escalate s)\<lparr>heap := h, nextCode := n\<rparr>"
proof (induction s rule: escalate.induct)
  case (1 s)
  show ?case
  proof (cases "esc_cond s")
    case True
    then have c: "CURRENT_MAX_CODES (currentCodeLen s) - 1 \<le> code s \<and>
         unat (currentCodeLen s) < MAX_CODE_LEN"
      by (simp add: esc_cond_def)
    from "1.IH" [OF c]
    have "escalate ((esc_body s)\<lparr>heap := h, nextCode := n\<rparr>)
            = (escalate (esc_body s))\<lparr>heap := h, nextCode := n\<rparr>"
      by (simp add: esc_body_def)
    with True show ?thesis
      by (simp add: escalate_unfold [of s] escalate_unfold [of "s\<lparr>heap := h, nextCode := n\<rparr>"]
          esc_body_update)
  next
    case False
    then show ?thesis
      by (simp add: escalate_unfold [of s] escalate_unfold [of "s\<lparr>heap := h, nextCode := n\<rparr>"])
  qed
qed

lemma escalate_stderr_update:
  "escalate (s\<lparr>stderr := e\<rparr>) = (escalate s)\<lparr>stderr := e\<rparr>"
proof (induction s rule: escalate.induct)
  case (1 s)
  show ?case
  proof (cases "esc_cond s")
    case True
    then have c: "CURRENT_MAX_CODES (currentCodeLen s) - 1 \<le> code s \<and>
         unat (currentCodeLen s) < MAX_CODE_LEN"
      by (simp add: esc_cond_def)
    from "1.IH" [OF c]
    have "escalate ((esc_body s)\<lparr>stderr := e\<rparr>) = (escalate (esc_body s))\<lparr>stderr := e\<rparr>"
      by (simp add: esc_body_def)
    with True show ?thesis
      by (simp add: escalate_unfold [of s] escalate_unfold [of "s\<lparr>stderr := e\<rparr>"]
          esc_body_update)
  next
    case False
    then show ?thesis
      by (simp add: escalate_unfold [of s] escalate_unfold [of "s\<lparr>stderr := e\<rparr>"])
  qed
qed

lemma emit_next_out:
  "currentCodeLen (emit_next s c) = currentCodeLen (escalate s)"
  "bfpOut (emit_next s c) = bfpOut (escalate s) @ [(code s, currentCodeLen (escalate s))]"
  by (simp_all add: emit_next_def Let_def PutCodeWord_def escalate_fields)

text \<open>The three ways a turn of the loop can go, in terms of the pairs the dictionary
  holds.\<close>

lemma running_step_match:
  assumes inv: "running_inv s" and j: "j < length (heap s)"
    and m: "pair_of (heap s ! j) = (code s, c)"
  shows "\<exists>s'. running_step mem s c = Some (Inr s') \<and> running_inv s' \<and> heap s' = heap s \<and>
           code s' = of_nat (256 + j) \<and> currentCodeLen s' = currentCodeLen s \<and>
           bfpOut s' = bfpOut s \<and> stderr s' = stderr s"
proof -
  note d = running_invD [OF inv]
  from j m have mem: "(code s, c) \<in> set (map pair_of (heap s))"
    by (metis length_map nth_map nth_mem)
  from running_step_result [OF inv, of c mem] obtain p
    where post: "find_post (heap s) (MakeKey (code s) c) p"
      and pm: "pair_of (heap s ! p) = (code s, c) \<longleftrightarrow> (code s, c) \<in> set (map pair_of (heap s))"
      and r: "running_step mem s c =
             (if (code s, c) \<in> set (map pair_of (heap s))
              then Some (Inr (s\<lparr>code := codeWord (heap s ! p)\<rparr>))
              else if nextCode s < MAX_CODES
              then (if length (heap s) < mem
                    then Some (Inr (emit_next (s\<lparr>heap := add_heap (heap s) p (new_node s c),
                                                  nextCode := nextCode s + 1\<rparr>) c))
                    else Some (Inl (AllocFailure, s)))
              else Some (Inr (emit_next (s\<lparr>stderr := stderr s @ [dictionary_full]\<rparr>) c)))"
    by blast
  from post have p: "p < length (heap s)" by (simp add: find_post_def)
  from pm mem have "pair_of (heap s ! p) = pair_of (heap s ! j)" using m by simp
  with nth_eq_iff_index_eq [OF d(4), of p j] p j have pj: "p = j" by simp
  have "codeWord (heap s ! j) = of_nat (unat (codeWord (heap s ! j)))" by simp
  also have "\<dots> = of_nat (256 + j)" by (simp only: codes_ok_codeWord [OF d(2) j])
  finally have cw: "codeWord (heap s ! j) = of_nat (256 + j)" .
  from r mem pj have "running_step mem s c = Some (Inr (s\<lparr>code := codeWord (heap s ! j)\<rparr>))"
    by (simp del: set_map)
  with running_inv_match [OF inv j] cw show ?thesis by simp
qed

lemma running_step_add:
  assumes inv: "running_inv s" and new: "(code s, c) \<notin> set (map pair_of (heap s))"
    and room: "nextCode s < MAX_CODES" and mem: "length (heap s) < mem"
  shows "\<exists>s'. running_step mem s c = Some (Inr s') \<and> running_inv s' \<and>
           map pair_of (heap s') = map pair_of (heap s) @ [(code s, c)] \<and>
           code s' = ucast c \<and> currentCodeLen s' = currentCodeLen (escalate s) \<and>
           bfpOut s' = bfpOut (escalate s) @ [(code s, currentCodeLen (escalate s))] \<and>
           stderr s' = stderr s"
proof -
  from running_step_result [OF inv, of c mem] obtain p
    where res: "FindLoop (heap s) 0 (MakeKey (code s) c) = Some (Inr p)"
      and post: "find_post (heap s) (MakeKey (code s) c) p"
      and pm: "pair_of (heap s ! p) = (code s, c) \<longleftrightarrow> (code s, c) \<in> set (map pair_of (heap s))"
      and r: "running_step mem s c =
             (if (code s, c) \<in> set (map pair_of (heap s))
              then Some (Inr (s\<lparr>code := codeWord (heap s ! p)\<rparr>))
              else if nextCode s < MAX_CODES
              then (if length (heap s) < mem
                    then Some (Inr (emit_next (s\<lparr>heap := add_heap (heap s) p (new_node s c),
                                                  nextCode := nextCode s + 1\<rparr>) c))
                    else Some (Inl (AllocFailure, s)))
              else Some (Inr (emit_next (s\<lparr>stderr := stderr s @ [dictionary_full]\<rparr>) c)))"
    by blast
  let ?s' = "emit_next (s\<lparr>heap := add_heap (heap s) p (new_node s c),
                          nextCode := nextCode s + 1\<rparr>) c"
  from post have p: "p < length (heap s)" by (simp add: find_post_def)
  from pm new have ne: "pair_of (heap s ! p) \<noteq> (code s, c)" by simp
  from r new room mem have "running_step mem s c = Some (Inr ?s')"
    by (simp del: set_map)
  moreover have "running_inv ?s'"
    using inv res post ne room by (rule running_inv_add)
  moreover have "map pair_of (heap ?s') = map pair_of (heap s) @ [(code s, c)]"
    using p by (simp add: map_pair_add_heap pair_of_def new_node_def)
  ultimately show ?thesis
    by (simp add: emit_next_out escalate_heap_update del: set_map)
qed

lemma running_step_full_new:
  assumes inv: "running_inv s" and new: "(code s, c) \<notin> set (map pair_of (heap s))"
    and full: "\<not> nextCode s < MAX_CODES"
  shows "\<exists>s'. running_step mem s c = Some (Inr s') \<and> running_inv s' \<and> heap s' = heap s \<and>
           code s' = ucast c \<and> currentCodeLen s' = currentCodeLen (escalate s) \<and>
           bfpOut s' = bfpOut (escalate s) @ [(code s, currentCodeLen (escalate s))] \<and>
           stderr s' = stderr s @ [dictionary_full]"
proof -
  from running_step_result [OF inv, of c mem] obtain p
    where r: "running_step mem s c =
             (if (code s, c) \<in> set (map pair_of (heap s))
              then Some (Inr (s\<lparr>code := codeWord (heap s ! p)\<rparr>))
              else if nextCode s < MAX_CODES
              then (if length (heap s) < mem
                    then Some (Inr (emit_next (s\<lparr>heap := add_heap (heap s) p (new_node s c),
                                                  nextCode := nextCode s + 1\<rparr>) c))
                    else Some (Inl (AllocFailure, s)))
              else Some (Inr (emit_next (s\<lparr>stderr := stderr s @ [dictionary_full]\<rparr>) c)))"
    by blast
  let ?s' = "emit_next (s\<lparr>stderr := stderr s @ [dictionary_full]\<rparr>) c"
  from r new full have "running_step mem s c = Some (Inr ?s')"
    by (simp del: set_map)
  moreover have "running_inv ?s'"
    using inv by (rule running_inv_full)
  ultimately show ?thesis
    by (simp add: emit_next_out escalate_stderr_update del: set_map)
qed

lemma escalate_stop: "\<not> esc_cond s \<Longrightarrow> escalate s = s"
  by (simp add: escalate_unfold [of s])

lemma running_append:
  "running mem s (xs @ ys) =
     (case running mem s xs of
        None \<Rightarrow> None
      | Some (Inl e) \<Rightarrow> Some (Inl e)
      | Some (Inr s') \<Rightarrow> running mem s' ys)"
  by (induction xs arbitrary: s) (simp_all split: option.split sum.split)

lemma encode_input_snoc:
  assumes "encode_input mem input = Some (Inr s)" "running_step mem s c = Some (Inr s')"
    and "2 \<le> length input"
  shows "encode_input mem (input @ [c]) = Some (Inr s')"
proof -
  from assms(3) obtain c0 c1 cs where i: "input = c0 # c1 # cs"
    by (cases input; cases "tl input") auto
  show ?thesis
  proof (cases "0 < mem")
    case True
    with assms(1,2) i show ?thesis
      by (simp add: encode_input_simps running_append)
  next
    case False
    with assms(1) i show ?thesis
      by (simp add: encode_input_simps)
  qed
qed

subsection \<open>A run whose last code word does not fit\<close>

lemma unat_small: "n < 2 ^ 20 \<Longrightarrow> unat (of_nat n :: uint) = n"
  by (simp add: unat_of_nat)

lemma ucast_of_nat_byte: "n < 256 \<Longrightarrow> (ucast (of_nat n :: uchar) :: uint) = of_nat n"
proof -
  assume n: "n < 256"
  have "unat (ucast (of_nat n :: uchar) :: uint) = take_bit LENGTH(32) (unat (of_nat n :: uchar))"
    by (rule unsigned_ucast_eq)
  also have "unat (of_nat n :: uchar) = n"
    using n by (simp add: unat_of_nat)
  also have "take_bit LENGTH(32) n = unat (of_nat n :: uint)"
    by (simp add: unat_of_nat take_bit_eq_mod)
  finally show ?thesis
    by (simp only: word_unat_eq_iff)
qed

lemma chain_pairs_Suc:
  "chain_pairs (Suc k) = chain_pairs k @ [(of_nat (Suc k), of_nat (Suc (Suc k)))]"
  by (simp add: chain_pairs_def del: of_nat_Suc)

lemma chain_pairs_fst:
  assumes "(a, b) \<in> set (chain_pairs k)"
  shows "\<exists>i\<le>k. a = of_nat i \<and> b = of_nat (Suc i)"
proof -
  from assms have "(a, b) \<in> (\<lambda>i. (of_nat i, of_nat (Suc i))) ` set [0..<Suc k]"
    unfolding chain_pairs_def by (simp only: set_map)
  then obtain i where "i \<in> set [0..<Suc k]" "(a, b) = (of_nat i, of_nat (Suc i))"
    by (rule imageE)
  then have "i \<le> k \<and> a = of_nat i \<and> b = of_nat (Suc i)"
    by (auto simp del: of_nat_Suc)
  then show ?thesis ..
qed

lemma chain_new:
  assumes "k < j" "j < 2 ^ 20"
  shows "(of_nat j, c) \<notin> set (chain_pairs k)"
proof
  assume "(of_nat j, c) \<in> set (chain_pairs k)"
  from chain_pairs_fst [OF this] obtain i where i: "i \<le> k" "(of_nat j :: uint) = of_nat i"
    by blast
  then have "unat (of_nat j :: uint) = unat (of_nat i :: uint)" by simp
  with assms i(1) show False by (simp add: unat_small)
qed

lemma chain_facts:
  assumes "chain k s"
  shows "running_inv s" "length (heap s) = Suc k" "unat (nextCode s) = 257 + k"
proof -
  from assms show inv: "running_inv s" by (simp add: chain_def)
  from assms have "length (map pair_of (heap s)) = length (chain_pairs k)"
    by (simp only: chain_def)
  then show l: "length (heap s) = Suc k" by (simp add: chain_pairs_def)
  from codes_ok_next [OF running_invD(2) [OF inv]] l show "unat (nextCode s) = 257 + k"
    by simp
qed

lemma no_escape_9:
  assumes "currentCodeLen s = 9" "unat (code s) < 511"
  shows "escalate s = s"
proof (rule escalate_stop)
  from assms show "\<not> esc_cond s"
    by (simp add: esc_cond_def CMC_9 word_le_nat_alt)
qed

lemma chain_step:
  assumes c: "chain k s" and k: "k \<le> 253" and m: "Suc k < mem"
  shows "\<exists>s'. running_step mem s (of_nat (Suc (Suc k))) = Some (Inr s') \<and> chain (Suc k) s'"
proof -
  note f = chain_facts [OF c]
  from c have pairs: "map pair_of (heap s) = chain_pairs k" and code: "code s = of_nat (Suc k)"
    and w: "currentCodeLen s = 9"
    by (simp_all add: chain_def)
  have "(code s, of_nat (Suc (Suc k))) \<notin> set (map pair_of (heap s))"
    unfolding pairs code using k by (intro chain_new) simp_all
  moreover have "nextCode s < MAX_CODES"
    using f(3) k by (simp add: word_less_nat_alt unat_MAX_CODES)
  moreover have "length (heap s) < mem"
    using f(2) m by simp
  ultimately obtain s' where s': "running_step mem s (of_nat (Suc (Suc k))) = Some (Inr s')"
    "running_inv s'"
    "map pair_of (heap s') = map pair_of (heap s) @ [(code s, of_nat (Suc (Suc k)))]"
    "code s' = ucast (of_nat (Suc (Suc k)) :: uchar)"
    "currentCodeLen s' = currentCodeLen (escalate s)"
    using running_step_add [OF f(1), of "of_nat (Suc (Suc k))" mem] by blast
  have "unat (code s) < 511"
    using k by (simp add: code unat_small del: of_nat_Suc)
  with w have "escalate s = s" by (rule no_escape_9)
  with s' w code pairs k have "chain (Suc k) s'"
    by (simp add: chain_def chain_pairs_Suc ucast_of_nat_byte del: of_nat_Suc)
  with s'(1) show ?thesis by blast
qed

lemma chain_loop:
  assumes m: "255 \<le> mem"
  shows "chain k s \<Longrightarrow> k \<le> 254 \<Longrightarrow>
         \<exists>s'. running mem s (map of_nat [Suc (Suc k)..<256]) = Some (Inr s') \<and> chain 254 s'"
proof (induction "254 - k" arbitrary: k s)
  case 0
  then have "k = 254" by simp
  with 0 show ?case by simp
next
  case (Suc n)
  then have k: "k \<le> 253" by simp
  from m k have "Suc k < mem" by simp
  from chain_step [OF Suc.prems(1) k this] obtain s1
    where s1: "running_step mem s (of_nat (Suc (Suc k))) = Some (Inr s1)" "chain (Suc k) s1"
    by blast
  from Suc.hyps(2) have "n = 254 - Suc k" by simp
  from Suc.hyps(1) [OF this s1(2)] k obtain s'
    where s': "running mem s1 (map of_nat [Suc (Suc (Suc k))..<256]) = Some (Inr s')" "chain 254 s'"
    by auto
  from k have "[Suc (Suc k)..<256] = Suc (Suc k) # [Suc (Suc (Suc k))..<256]"
    by (simp add: upt_conv_Cons)
  with s1(1) s' show ?case by (simp del: of_nat_Suc)
qed

lemma chain_tail:
  assumes c: "chain 254 s" and m: "257 \<le> mem"
  shows "\<exists>s'. running mem s [0, 255, 0] = Some (Inr s') \<and> code s' = 511 \<and>
              currentCodeLen s' = 9 \<and> running_inv s' \<and>
              map pair_of (heap s') = chain_pairs 254 @ [(255, 0), (0, 255)]"
proof -
  note f = chain_facts [OF c]
  from c have pairs: "map pair_of (heap s) = chain_pairs 254" and code: "code s = 255"
    and w: "currentCodeLen s = 9"
    by (simp_all add: chain_def)
  \<comment> \<open>the byte 0 after 255: a new entry, code 511\<close>
  have "(of_nat 255, 0) \<notin> set (chain_pairs 254)"
    by (rule chain_new) simp_all
  then have "(code s, 0) \<notin> set (map pair_of (heap s))"
    by (simp only: pairs code) simp
  moreover have "nextCode s < MAX_CODES"
    using f(3) by (simp add: word_less_nat_alt unat_MAX_CODES)
  moreover have "length (heap s) < mem"
    using f(2) m by simp
  ultimately obtain s1 where s1: "running_step mem s 0 = Some (Inr s1)" "running_inv s1"
    "map pair_of (heap s1) = map pair_of (heap s) @ [(code s, 0)]"
    "code s1 = ucast (0 :: uchar)" "currentCodeLen s1 = currentCodeLen (escalate s)"
    using running_step_add [OF f(1), of 0 mem] by blast
  have "escalate s = s"
    using w by (rule no_escape_9) (simp add: code)
  with s1 w code pairs have p1: "map pair_of (heap s1) = chain_pairs 254 @ [(255, 0)]"
    and c1: "code s1 = 0" and w1: "currentCodeLen s1 = 9"
    by simp_all
  from p1 have "length (map pair_of (heap s1)) = 256"
    by (simp only: length_append) (simp add: chain_pairs_def)
  then have l1: "length (heap s1) = 256" by simp
  with codes_ok_next [OF running_invD(2) [OF s1(2)]] have n1: "unat (nextCode s1) = 512"
    by simp
  \<comment> \<open>the byte 255 after 0: a new entry, code 512\<close>
  have "(0, 255) \<notin> set (chain_pairs 254)"
  proof
    assume "(0, 255) \<in> set (chain_pairs 254)"
    from chain_pairs_fst [OF this] obtain i
      where i: "i \<le> 254" "(0 :: uint) = of_nat i" "(255 :: uchar) = of_nat (Suc i)"
      by blast
    from i(2) have "unat (of_nat i :: uint) = 0" by simp
    with i(1) have "i = 0" by (simp add: unat_small)
    with i(3) show False by simp
  qed
  then have "(code s1, 255) \<notin> set (map pair_of (heap s1))"
    by (simp add: p1 c1)
  moreover have "nextCode s1 < MAX_CODES"
    using n1 by (simp add: word_less_nat_alt unat_MAX_CODES)
  moreover have "length (heap s1) < mem"
    using l1 m by simp
  ultimately obtain s2 where s2: "running_step mem s1 255 = Some (Inr s2)" "running_inv s2"
    "map pair_of (heap s2) = map pair_of (heap s1) @ [(code s1, 255)]"
    "code s2 = ucast (255 :: uchar)" "currentCodeLen s2 = currentCodeLen (escalate s1)"
    using running_step_add [OF s1(2), of 255 mem] by blast
  have "escalate s1 = s1"
    using w1 by (rule no_escape_9) (simp add: c1)
  with s2 w1 c1 p1 have p2: "map pair_of (heap s2) = chain_pairs 254 @ [(255, 0), (0, 255)]"
    and c2: "code s2 = 255" and w2: "currentCodeLen s2 = 9"
    by simp_all
  \<comment> \<open>the byte 0 after 255 again: the string of code 511\<close>
  have len: "length (chain_pairs 254) = 255"
    by (simp add: chain_pairs_def)
  from p2 have "length (map pair_of (heap s2)) = 257"
    by (simp only: length_append len) simp
  then have l2: "255 < length (heap s2)" by simp
  have "map pair_of (heap s2) ! 255 = (255, 0)"
    by (simp only: p2 nth_append_length [of "chain_pairs 254", unfolded len])
  with l2 c2 have "pair_of (heap s2 ! 255) = (code s2, 0)"
    by simp
  from running_step_match [OF s2(2) l2 this, of mem] obtain s3
    where s3: "running_step mem s2 0 = Some (Inr s3)" "code s3 = of_nat (256 + 255)"
      "currentCodeLen s3 = currentCodeLen s2" "running_inv s3" "heap s3 = heap s2"
    by blast
  from s1(1) s2(1) s3 w2 p2 have "running mem s [0, 255, 0] = Some (Inr s3) \<and> code s3 = 511 \<and>
              currentCodeLen s3 = 9 \<and> running_inv s3 \<and>
              map pair_of (heap s3) = chain_pairs 254 @ [(255, 0), (0, 255)]"
    by simp
  then show ?thesis ..
qed

lemma chain_seed: "chain 0 (seed_state 0 1)"
  using running_inv_seed [of 0 1]
  by (simp add: chain_def chain_pairs_def seed_state_def pair_of_def)

lemma unchecked_input_eq:
  "unchecked_input = 0 # 1 # (map of_nat [Suc (Suc 0)..<256] @ [0, 255, 0])"
proof -
  have "[0..<256] = 0 # Suc 0 # [Suc (Suc 0)..<256]"
    by (simp add: upt_conv_Cons)
  then show ?thesis
    by (simp only: unchecked_input_def) simp
qed

lemma encode_unchecked_input_inv:
  assumes m: "257 \<le> mem"
  shows "\<exists>s. encode_input mem unchecked_input = Some (Inr s) \<and> code s = 511 \<and>
             currentCodeLen s = 9 \<and> running_inv s \<and>
             map pair_of (heap s) = chain_pairs 254 @ [(255, 0), (0, 255)]"
proof -
  from m have m': "255 \<le> mem" "0 < mem" by simp_all
  from chain_loop [OF m'(1) chain_seed] obtain s1
    where s1: "running mem (seed_state 0 1) (map of_nat [Suc (Suc 0)..<256]) = Some (Inr s1)"
      "chain 254 s1"
    by auto
  from chain_tail [OF s1(2) m] obtain s2
    where s2: "running mem s1 [0, 255, 0] = Some (Inr s2)" "code s2 = 511" "currentCodeLen s2 = 9"
      "running_inv s2" "map pair_of (heap s2) = chain_pairs 254 @ [(255, 0), (0, 255)]"
    by blast
  have "encode_input mem unchecked_input
          = running mem (seed_state 0 1) (map of_nat [Suc (Suc 0)..<256] @ [0, 255, 0])"
    using m'(2) by (simp only: unchecked_input_eq encode_input_simps)
  also have "\<dots> = Some (Inr s2)"
    using s1(1) s2(1) by (simp only: running_append) simp
  finally show ?thesis using s2 by blast
qed

lemma escalate_9_511:
  assumes w: "currentCodeLen s = 9" and c: "code s = 511"
  shows "currentCodeLen (escalate s) = 10" "bfpOut (escalate s) = bfpOut s @ [(511, 9)]"
proof -
  have "esc_cond s"
    using w c by (simp add: esc_cond_def CMC_9 MAX_CODE_LEN_def)
  moreover have "\<not> esc_cond (esc_body s)"
    using w c by (simp add: esc_cond_def CURRENT_MAX_CODES_def)
  ultimately have "escalate s = esc_body s"
    by (simp add: escalate_unfold [of s] escalate_unfold [of "esc_body s"])
  then show "currentCodeLen (escalate s) = 10" "bfpOut (escalate s) = bfpOut s @ [(511, 9)]"
    using w by (simp_all add: CMC_9)
qed

lemma encode_escape_input:
  assumes m: "258 \<le> mem"
  shows "\<exists>s out. encode_input mem escape_input = Some (Inr s) \<and>
           bfpOut s = out @ [(511, 9), (511, 10)] \<and> code s = 5 \<and> currentCodeLen s = 10"
proof -
  from m have m': "257 \<le> mem" by simp
  from encode_unchecked_input_inv [OF m'] obtain s
    where s: "encode_input mem unchecked_input = Some (Inr s)" "code s = 511"
      "currentCodeLen s = 9" "running_inv s"
      "map pair_of (heap s) = chain_pairs 254 @ [(255, 0), (0, 255)]"
    by blast
  have len: "length (chain_pairs 254) = 255"
    by (simp add: chain_pairs_def)
  from s(5) have "length (map pair_of (heap s)) = 257"
    by (simp only: length_append len) simp
  then have l: "length (heap s) = 257" by simp
  with codes_ok_next [OF running_invD(2) [OF s(4)]] have n: "unat (nextCode s) = 513"
    by simp
  have "(of_nat 511, 5) \<notin> set (chain_pairs 254)"
    by (rule chain_new) simp_all
  then have "(code s, 5) \<notin> set (map pair_of (heap s))"
    by (simp add: s(2,5))
  moreover have "nextCode s < MAX_CODES"
    using n by (simp add: word_less_nat_alt unat_MAX_CODES)
  moreover have "length (heap s) < mem"
    using l m by simp
  ultimately obtain s' where s': "running_step mem s 5 = Some (Inr s')"
    "code s' = ucast (5 :: uchar)" "currentCodeLen s' = currentCodeLen (escalate s)"
    "bfpOut s' = bfpOut (escalate s) @ [(code s, currentCodeLen (escalate s))]"
    using running_step_add [OF s(4), of 5 mem] by blast
  from s' escalate_9_511 [OF s(3,2)] s(2)
  have "bfpOut s' = bfpOut s @ [(511, 9), (511, 10)]" "code s' = 5" "currentCodeLen s' = 10"
    by simp_all
  moreover have "2 \<le> length unchecked_input"
    by (simp add: unchecked_input_def)
  with s(1) s'(1) have "encode_input mem escape_input = Some (Inr s')"
    unfolding escape_input_def by (rule encode_input_snoc)
  ultimately show ?thesis by blast
qed

lemma written_unchecked_input:
  "map_option last (written 257 unchecked_input) = Some (511, 9)"
proof -
  from encode_unchecked_input_inv [of 257] obtain s
    where "encode_input 257 unchecked_input = Some (Inr s)" "code s = 511" "currentCodeLen s = 9"
    by auto
  then show ?thesis
    by (simp add: written_def LZWEncodeFile_eq)
qed

lemma run_escape_input:
  "\<exists>s. LZWEncodeFile 258 escape_input = Some (Inr s) \<and>
       (rev \<circ> take 3 \<circ> rev) (bfpOut s) = [(511, 9), (511, 10), (5, 10)]"
proof -
  from encode_escape_input [of 258] obtain s out
    where "encode_input 258 escape_input = Some (Inr s)"
      "bfpOut s = out @ [(511, 9), (511, 10)]" "code s = 5" "currentCodeLen s = 10"
    by auto
  then show ?thesis
    by (simp add: LZWEncodeFile_eq)
qed

subsection \<open>A run that fills the dictionary\<close>

lemma rep_pairs_Suc: "rep_pairs (Suc m) = rep_pairs m @ [(of_nat (256 + m), 65)]"
  by (simp add: rep_pairs_def del: of_nat_add)

lemma length_rep_pairs [simp]: "length (rep_pairs m) = Suc m"
  by (simp add: rep_pairs_def)

lemma rep_pairs_nth:
  assumes "j \<le> m"
  shows "rep_pairs m ! j = ((if j = 0 then 65 else of_nat (255 + j)), 65)"
proof (cases j)
  case 0
  then show ?thesis by (simp add: rep_pairs_def)
next
  case (Suc i)
  with assms have "i < m" by simp
  then have "rep_pairs m ! Suc i = (of_nat (256 + i), 65)"
    by (simp add: rep_pairs_def del: of_nat_add)
  with Suc show ?thesis by (simp del: of_nat_add)
qed

lemma rep_pairs_new:
  assumes "256 + m < 2 ^ 20"
  shows "(of_nat (256 + m), c) \<notin> set (rep_pairs m)"
proof
  assume "(of_nat (256 + m), c) \<in> set (rep_pairs m)"
  then have "(of_nat (256 + m) :: uint) = 65 \<or>
      (of_nat (256 + m), c) \<in> (\<lambda>i. (of_nat (256 + i) :: uint, 65 :: uchar)) ` set [0..<m]"
    unfolding rep_pairs_def by (simp only: set_simps set_map insert_iff prod.inject) blast
  then show False
  proof
    assume "(of_nat (256 + m) :: uint) = 65"
    then have "unat (of_nat (256 + m) :: uint) = unat (65 :: uint)" by (rule arg_cong)
    with assms show False by (simp only: unat_small) simp
  next
    assume "(of_nat (256 + m), c) \<in> (\<lambda>i. (of_nat (256 + i) :: uint, 65 :: uchar)) ` set [0..<m]"
    then obtain i where i: "i \<in> set [0..<m]" "(of_nat (256 + m) :: uint, c) = (of_nat (256 + i), 65)"
      by (rule imageE)
    then have "unat (of_nat (256 + m) :: uint) = unat (of_nat (256 + i) :: uint)"
      by (simp del: of_nat_add)
    moreover from i(1) assms have "i < m" "256 + i < 2 ^ 20" by simp_all
    ultimately show False using assms by (simp only: unat_small)
  qed
qed

lemma rep_facts:
  assumes "rep m j s"
  shows "running_inv s" "length (heap s) = Suc m" "unat (nextCode s) = 257 + m" "stderr s = []"
proof -
  from assms show "stderr s = []" by (simp add: rep_def)
  from assms show inv: "running_inv s" by (simp add: rep_def)
  from assms have "length (map pair_of (heap s)) = length (rep_pairs m)"
    by (simp only: rep_def)
  then show l: "length (heap s) = Suc m" by simp
  from codes_ok_next [OF running_invD(2) [OF inv]] l show "unat (nextCode s) = 257 + m"
    by simp
qed

lemma rep_match:
  assumes r: "rep m j s" and j: "j \<le> m"
  shows "\<exists>s'. running_step mem s 65 = Some (Inr s') \<and> rep m (Suc j) s' \<and>
              bfpOut s' = bfpOut s \<and> currentCodeLen s' = currentCodeLen s"
proof -
  note f = rep_facts [OF r]
  from r have pairs: "map pair_of (heap s) = rep_pairs m"
    and code: "code s = (if j = 0 then 65 else of_nat (255 + j))"
    by (simp_all add: rep_def)
  from j f(2) have jl: "j < length (heap s)" by simp
  have "map pair_of (heap s) ! j = (code s, 65)"
    by (simp only: pairs code rep_pairs_nth [OF j])
  with jl have "pair_of (heap s ! j) = (code s, 65)" by simp
  from running_step_match [OF f(1) jl this, of mem] obtain s'
    where s': "running_step mem s 65 = Some (Inr s')" "running_inv s'" "heap s' = heap s"
      "code s' = of_nat (256 + j)" "currentCodeLen s' = currentCodeLen s" "bfpOut s' = bfpOut s"
      "stderr s' = stderr s"
    by blast
  then have "rep m (Suc j) s'"
    using pairs f(4) by (simp add: rep_def del: of_nat_add)
  with s' show ?thesis by blast
qed

lemma rep_matches:
  "rep m j s \<Longrightarrow> j + k \<le> Suc m \<Longrightarrow>
     \<exists>s'. running mem s (replicate k 65) = Some (Inr s') \<and> rep m (j + k) s' \<and>
          bfpOut s' = bfpOut s \<and> currentCodeLen s' = currentCodeLen s"
proof (induction k arbitrary: j s)
  case 0
  then show ?case by simp
next
  case (Suc k)
  from Suc.prems(2) have "j \<le> m" by simp
  from rep_match [OF Suc.prems(1) this, of mem] obtain s1
    where s1: "running_step mem s 65 = Some (Inr s1)" "rep m (Suc j) s1"
      "bfpOut s1 = bfpOut s" "currentCodeLen s1 = currentCodeLen s"
    by blast
  from Suc.prems(2) have "Suc j + k \<le> Suc m" by simp
  from Suc.IH [OF s1(2) this] obtain s'
    where "running mem s1 (replicate k 65) = Some (Inr s')" "rep m (Suc j + k) s'"
      "bfpOut s' = bfpOut s1" "currentCodeLen s' = currentCodeLen s1"
    by blast
  with s1 show ?case by simp
qed

lemma rep_add:
  assumes r: "rep m (Suc m) s" and room: "257 + m < 2 ^ 20" and mem: "Suc m < mem"
  shows "\<exists>s'. running_step mem s 65 = Some (Inr s') \<and> rep (Suc m) 0 s'"
proof -
  note f = rep_facts [OF r]
  from r have pairs: "map pair_of (heap s) = rep_pairs m" and code: "code s = of_nat (256 + m)"
    by (simp_all add: rep_def del: of_nat_add)
  have "(code s, 65) \<notin> set (map pair_of (heap s))"
    unfolding pairs code using room by (intro rep_pairs_new) simp
  moreover have "nextCode s < MAX_CODES"
    using f(3) room by (simp add: word_less_nat_alt unat_MAX_CODES)
  moreover have "length (heap s) < mem"
    using f(2) mem by simp
  ultimately obtain s' where s': "running_step mem s 65 = Some (Inr s')" "running_inv s'"
    "map pair_of (heap s') = map pair_of (heap s) @ [(code s, 65)]"
    "code s' = ucast (65 :: uchar)" "stderr s' = stderr s"
    using running_step_add [OF f(1), of 65 mem] by blast
  then have "rep (Suc m) 0 s'"
    using f(4) by (simp add: rep_def rep_pairs_Suc pairs code del: of_nat_add)
  with s'(1) show ?thesis by blast
qed

lemma rep_phase:
  assumes r: "rep m 0 s" and room: "257 + m < 2 ^ 20" and mem: "Suc m < mem"
  shows "\<exists>s'. running mem s (replicate (m + 2) 65) = Some (Inr s') \<and> rep (Suc m) 0 s'"
proof -
  from rep_matches [OF r, of "Suc m" mem] obtain s1
    where s1: "running mem s (replicate (Suc m) 65) = Some (Inr s1)" "rep m (Suc m) s1"
    by auto
  from rep_add [OF s1(2) room mem] obtain s'
    where s': "running_step mem s1 65 = Some (Inr s')" "rep (Suc m) 0 s'"
    by blast
  have "replicate (m + 2) (65 :: uchar) = replicate (Suc m) 65 @ [65]"
    by (simp add: replicate_append_same)
  with s1(1) s' show ?thesis
    by (simp only: running_append) simp
qed

lemma rep_phases:
  "rep 0 0 s \<Longrightarrow> 256 + n < 2 ^ 20 \<Longrightarrow> n < mem \<Longrightarrow>
     \<exists>s'. running mem s (concat (map (\<lambda>m. replicate (m + 2) 65) [0..<n])) = Some (Inr s') \<and>
          rep n 0 s'"
proof (induction n)
  case 0
  then show ?case by simp
next
  case (Suc n)
  from Suc.prems have "256 + n < 2 ^ 20" "n < mem" by simp_all
  from Suc.IH [OF Suc.prems(1) this] obtain s1
    where s1: "running mem s (concat (map (\<lambda>m. replicate (m + 2) 65) [0..<n])) = Some (Inr s1)"
      "rep n 0 s1"
    by blast
  from Suc.prems have "257 + n < 2 ^ 20" "Suc n < mem" by simp_all
  from rep_phase [OF s1(2) this] obtain s'
    where s': "running mem s1 (replicate (n + 2) 65) = Some (Inr s')" "rep (Suc n) 0 s'"
    by blast
  have "concat (map (\<lambda>m. replicate (m + 2) (65 :: uchar)) [0..<Suc n])
          = concat (map (\<lambda>m. replicate (m + 2) 65) [0..<n]) @ replicate (n + 2) 65"
    by simp
  with s1(1) s' show ?case
    by (simp only: running_append) simp
qed

lemma escalate_width_20:
  assumes inv: "running_inv s" and big: "2 ^ 20 - 1 \<le> unat (code s)"
  shows "currentCodeLen (escalate s) = 20"
proof -
  let ?w = "currentCodeLen (escalate s)"
  from running_invD(5,6) [OF inv] have "trace_ok (escalate s)"
    using escalate_trace [of s] by blast
  then have w: "9 \<le> unat ?w" "unat ?w \<le> 20"
    by (simp_all add: trace_ok_def width_ok_def)
  have "\<not> unat ?w < 20"
  proof
    assume lt: "unat ?w < 20"
    then have "unat ?w \<le> 19" by simp
    then have "(2::nat) ^ unat ?w \<le> 2 ^ 19"
      by (intro power_increasing) simp_all
    then have "unat (CURRENT_MAX_CODES ?w - 1) \<le> unat (code s)"
      using big w(2) by (simp add: unat_escape)
    then have "esc_cond (escalate s)"
      using lt by (simp add: esc_cond_def word_le_nat_alt escalate_fields MAX_CODE_LEN_def)
    with escalate_exit [of s] show False ..
  qed
  with w(2) have "unat ?w = unat (20 :: uchar)" by simp
  then show ?thesis by (simp only: word_unat_eq_iff)
qed

lemma full_count_eq: "257 + full_count = 2 ^ 20"
  by (simp add: full_count_def)

lemma rep_full:
  assumes r: "rep full_count (Suc full_count) s"
  shows "\<exists>s'. running_step mem s 65 = Some (Inr s') \<and>
              bfpOut s' = bfpOut (escalate s) @ [(1048575, 20)] \<and>
              currentCodeLen s' = 20 \<and> code s' = 65 \<and>
              stderr s' = [dictionary_full]"
proof -
  note f = rep_facts [OF r]
  from r have pairs: "map pair_of (heap s) = rep_pairs full_count"
    and code: "code s = of_nat (256 + full_count)"
    by (simp_all add: rep_def del: of_nat_add)
  have lt: "256 + full_count < 2 ^ 20"
    using full_count_eq by simp
  have code': "code s = 1048575"
    by (simp add: code full_count_def)
  have "(code s, 65) \<notin> set (map pair_of (heap s))"
    unfolding pairs code using lt by (rule rep_pairs_new)
  moreover have "\<not> nextCode s < MAX_CODES"
    using f(3) full_count_eq by (simp add: word_less_nat_alt unat_MAX_CODES)
  ultimately obtain s' where s': "running_step mem s 65 = Some (Inr s')"
    "code s' = ucast (65 :: uchar)" "currentCodeLen s' = currentCodeLen (escalate s)"
    "bfpOut s' = bfpOut (escalate s) @ [(code s, currentCodeLen (escalate s))]"
    "stderr s' = stderr s @ [dictionary_full]"
    using running_step_full_new [OF f(1), of 65 mem] by blast
  have "currentCodeLen (escalate s) = 20"
    using f(1) by (rule escalate_width_20) (simp add: code')
  with s' code' f(4) show ?thesis by simp
qed

lemma rep_seed: "rep 0 0 (seed_state 65 65)"
  using running_inv_seed [of 65 65]
  by (simp add: rep_def rep_pairs_def seed_state_def pair_of_def)

lemma encode_filling_input:
  assumes m: "full_count < mem"
  shows "\<exists>s out. encode_input mem filling_input = Some (Inr s) \<and>
           bfpOut s = out @ [(1048575, 20)] \<and> currentCodeLen s = 20 \<and> code s = 65 \<and>
           stderr s = [dictionary_full]"
proof -
  let ?phase = "\<lambda>m. replicate (m + 2) (65 :: uchar)"
  have lt: "256 + full_count < 2 ^ 20"
    using full_count_eq by simp
  from rep_phases [OF rep_seed lt m] obtain s1
    where s1: "running mem (seed_state 65 65) (concat (map ?phase [0..<full_count])) = Some (Inr s1)"
      "rep full_count 0 s1"
    by blast
  from rep_matches [OF s1(2), of "Suc full_count" mem] obtain s2
    where s2: "running mem s1 (replicate (Suc full_count) 65) = Some (Inr s2)"
      "rep full_count (Suc full_count) s2"
    by auto
  from rep_full [OF s2(2), of mem] obtain s3
    where s3: "running_step mem s2 65 = Some (Inr s3)"
      "bfpOut s3 = bfpOut (escalate s2) @ [(1048575, 20)]"
      "currentCodeLen s3 = 20" "code s3 = 65" "stderr s3 = [dictionary_full]"
    by auto
  have "concat (map ?phase [0..<Suc full_count])
          = concat (map ?phase [0..<full_count]) @ (replicate (Suc full_count) 65 @ [65])"
    by (simp add: replicate_append_same)
  then have e: "filling_input = 65 # 65 #
      (concat (map ?phase [0..<full_count]) @ (replicate (Suc full_count) 65 @ [65]))"
    by (simp only: filling_input_def)
  from m have "0 < mem" by simp
  then have "encode_input mem filling_input
      = running mem (seed_state 65 65)
          (concat (map ?phase [0..<full_count]) @ (replicate (Suc full_count) 65 @ [65]))"
    unfolding e by (rule encode_input_simps(4))
  also have "\<dots> = Some (Inr s3)"
    using s1(1) s2(1) s3(1) by (simp only: running_append) simp
  finally show ?thesis using s3 by blast
qed

lemma written_filling_input:
  "map_option (last \<circ> butlast) (written 1048320 filling_input) = Some (1048575, 20) \<and>
   map_option last (written 1048320 filling_input) = Some (65, 20)"
proof -
  have "full_count < 1048320" by (simp add: full_count_def)
  from encode_filling_input [OF this] obtain s out
    where "encode_input 1048320 filling_input = Some (Inr s)"
      "bfpOut s = out @ [(1048575, 20)]" "currentCodeLen s = 20" "code s = 65"
    by blast
  then show ?thesis
    by (simp add: written_def LZWEncodeFile_eq butlast_append)
qed


subsection \<open>The key, the empty file, four equal bytes, the code length\<close>

text \<open>
  C8. MakeKey is injective on pairs whose prefix codes are below \<open>MAX_CODES = 2^20\<close>: two
  distinct pairs have distinct keys. The order of the keys is a strict total order on such
  pairs: of two distinct pairs one is below the other, never both ways, no pair is below
  itself, and the order is transitive.
\<close>

theorem MakeKey_injective_and_ordered:
  assumes "p1 < MAX_CODES" "p2 < MAX_CODES" "(p1, s1) \<noteq> (p2, s2)"
  shows "MakeKey p1 s1 \<noteq> MakeKey p2 s2 \<and>
         (key_less (p1, s1) (p2, s2) \<or> key_less (p2, s2) (p1, s1)) \<and>
         \<not> (key_less (p1, s1) (p2, s2) \<and> key_less (p2, s2) (p1, s1)) \<and>
         \<not> key_less (p1, s1) (p1, s1) \<and>
         (\<forall>q. key_less (p1, s1) (p2, s2) \<and> key_less (p2, s2) q \<longrightarrow> key_less (p1, s1) q)"
proof -
  have "MakeKey p1 s1 \<noteq> MakeKey p2 s2"
    using MakeKey_inj [OF assms(1,2)] assms(3) by blast
  then show ?thesis
    by (auto simp: key_less_def)
qed

theorem MakeKey_injective_and_ordered_witness:
  "(65 :: uint) < MAX_CODES \<and> (256 :: uint) < MAX_CODES \<and>
   MakeKey 65 65 \<noteq> MakeKey 256 65 \<and> key_less (65, 65) (256, 65) \<and>
   \<not> key_less (256, 65) (65, 65)"
  using MakeKey_injective_and_ordered [of 65 256 65 65]
  by (simp add: MAX_CODES_eq key_less_def MakeKey_def MAX_CODE_LEN_def)

text \<open>
  C6. For the empty file LZWEncodeFile returns FALSE (line 169) and has written no code
  word.
\<close>

theorem empty_input_fails:
  "LZWEncodeFile mem [] = Some (Inl (EmptyFile, init_state)) \<and> bfpOut init_state = []"
  by (simp add: LZWEncodeFile_def encode_input_def init_state_def)

text \<open>
  C7. For the four bytes 65, 65, 65, 65 (and two nodes from malloc) LZWEncodeFile writes
  the three 9-bit code words 65, 256, 65 in this order; at the end the dictionary holds
  exactly 256 = (65, 65) and 257 = (256, 65), and the code 257 is never written.
\<close>

theorem four_equal_bytes:
  assumes "2 \<le> mem"
  shows "LZWEncodeFile mem [65, 65, 65, 65] = Some (Inr AAAA_final) \<and>
         bfpOut AAAA_final = [(65, 9), (256, 9), (65, 9)] \<and>
         map entry_of (heap AAAA_final) = [(256, 65, 65), (257, 256, 65)] \<and>
         257 \<notin> set (map fst (bfpOut AAAA_final))"
  using run_AAAA [OF assms] by (simp add: AAAA_final_def AAAA_loop_def entry_of_def)

theorem four_equal_bytes_witness:
  "LZWEncodeFile 2 [65, 65, 65, 65] = Some (Inr AAAA_final) \<and>
   bfpOut AAAA_final = [(65, 9), (256, 9), (65, 9)] \<and>
   map entry_of (heap AAAA_final) = [(256, 65, 65), (257, 256, 65)]"
  using four_equal_bytes [of 2] by simp

text \<open>
  C2. The code length starts at 9. Every code word of a run is written with the current
  length, so the lengths in the output are the values the length takes: the first is 9,
  all are between 9 and 20, the last is the length at the end, and from one code word to
  the next the length stays or grows by exactly one, and grows only when the code word
  before is the escape code \<open>2^w - 1\<close> of the length \<open>w\<close> before.
\<close>

theorem width_grows_by_escape:
  assumes "LZWEncodeFile mem input = Some (Inr s)"
  shows "currentCodeLen init_state = 9 \<and> bfpOut s \<noteq> [] \<and> snd (hd (bfpOut s)) = 9 \<and>
         snd (last (bfpOut s)) = currentCodeLen s \<and>
         (\<forall>e\<in>set (bfpOut s). 9 \<le> unat (snd e) \<and> unat (snd e) \<le> 20) \<and>
         successively width_rel (bfpOut s)"
proof (cases mem input rule: LZWEncodeFile_cases)
  case empty
  with assms show ?thesis by simp
next
  case (single c0)
  with assms have "s = final_state (single_state c0)" by simp
  then show ?thesis by (simp add: init_state_def)
next
  case (nomem s0)
  with assms show ?thesis by simp
next
  case (run t)
  with assms have s: "s = final_state t" by simp
  from final_trace(1) [OF run(4)] have "successively width_rel (bfpOut (final_state t))"
    by (rule successively_mono) (rule emit_rel_width_rel)
  with final_trace(2,3) [OF run(4)] s show ?thesis
    by (simp add: init_state_def)
qed

theorem width_grows_by_escape_witness:
  "map_option (rev \<circ> take 3 \<circ> rev) (written 258 escape_input)
     = Some [(511, 9), (511, 10), (5, 10)] \<and>
   map_option (successively width_rel) (written 258 escape_input) = Some True \<and>
   map_option (snd \<circ> hd) (written 258 escape_input) = Some 9"
proof -
  from run_escape_input obtain s
    where s: "LZWEncodeFile 258 escape_input = Some (Inr s)"
      "(rev \<circ> take 3 \<circ> rev) (bfpOut s) = [(511, 9), (511, 10), (5, 10)]"
    by blast
  from width_grows_by_escape [OF s(1)] s show ?thesis
    by (simp add: written_def)
qed

subsection \<open>The order of the codes\<close>

lemma codes_ok_codeWords:
  assumes "codes_ok s"
  shows "map codeWord (heap s) = map of_nat [256..<256 + length (heap s)]"
proof (rule nth_equalityI)
  show "length (map codeWord (heap s)) = length (map of_nat [256..<256 + length (heap s)])"
    by simp
next
  fix i assume "i < length (map codeWord (heap s))"
  then have i: "i < length (heap s)" by simp
  have "codeWord (heap s ! i) = of_nat (unat (codeWord (heap s ! i)))"
    by simp
  also have "\<dots> = of_nat (256 + i)"
    by (simp only: codes_ok_codeWord [OF assms i])
  finally show "map codeWord (heap s) ! i = map of_nat [256..<256 + length (heap s)] ! i"
    using i by (simp add: add.commute)
qed


lemma single_step_no_codes:
  "map codeWord (heap (single_state c0)) = map of_nat [256..<256 + length (heap (single_state c0))]"
  "unat (nextCode (single_state c0)) = 256 + length (heap (single_state c0))"
  by simp_all



subsection \<open>The full dictionary\<close>




subsection \<open>Pointers and prefix codes\<close>

lemma find_entry_running:
  assumes "tree_ok s"
  shows "\<exists>p. FindDictionaryEntry (heap s) (dictRoot s) (code s) c = Some (Inr (Some p)) \<and>
             p < length (heap s)"
proof -
  from find_running [OF assms] obtain p
    where "FindLoop (heap s) 0 (MakeKey (code s) c) = Some (Inr p)"
      and "find_post (heap s) (MakeKey (code s) c) p"
    by blast
  moreover from assms have "dictRoot s = Some 0" by (simp add: tree_ok_def)
  ultimately show ?thesis
    by (simp add: FindDictionaryEntry_def find_post_def)
qed

text \<open>
  C9. No run reads through a NULL or dangling pointer. Whenever the loop of lines 191 to
  243 reads a byte (the file then has at least two bytes) the tree has a root, and
  FindDictionaryEntry returns a pointer to an allocated node, not NULL.
\<close>

theorem lookup_never_returns_null:
  "(\<forall>s0. LZWEncodeFile mem input \<noteq> Some (Inl (SegFault, s0))) \<and>
   (\<forall>s c. encode_input mem input = Some (Inr s) \<and> 2 \<le> length input \<longrightarrow>
      heap s \<noteq> [] \<and> dictRoot s \<noteq> None \<and>
      (\<exists>p. FindDictionaryEntry (heap s) (dictRoot s) (code s) c = Some (Inr (Some p)) \<and>
           p < length (heap s)))"
proof -
  have a: "LZWEncodeFile mem input \<noteq> Some (Inl (SegFault, s0))" for s0
    by (cases mem input rule: LZWEncodeFile_cases) simp_all
  have b: "heap s \<noteq> [] \<and> dictRoot s \<noteq> None \<and>
      (\<exists>p. FindDictionaryEntry (heap s) (dictRoot s) (code s) c = Some (Inr (Some p)) \<and>
           p < length (heap s))"
    if e: "encode_input mem input = Some (Inr s) \<and> 2 \<le> length input" for s c
  proof (cases mem input rule: encode_input_cases)
    case (run t)
    with e have s: "s = t" by simp
    from running_invD(1) [OF run(3)] have t: "tree_ok s" unfolding s .
    with find_entry_running [OF t, of c] show ?thesis
      by (simp add: tree_ok_def)
  qed (use e in simp_all)
  from a b show ?thesis by blast
qed

theorem lookup_never_returns_null_witness:
  "encode_input 2 [65, 65, 65, 65] = Some (Inr AAAA_loop) \<and>
   (2 :: nat) \<le> length [65, 65, 65, 65 :: uchar] \<and> heap AAAA_loop \<noteq> [] \<and>
   dictRoot AAAA_loop = Some 0 \<and>
   FindDictionaryEntry (heap AAAA_loop) (dictRoot AAAA_loop) (code AAAA_loop) 66
     = Some (Inr (Some 1))"
proof -
  have "heap AAAA_loop \<noteq> []"
    using lookup_never_returns_null [of 2 "[65, 65, 65, 65]"] encode_AAAA [of 2] by simp
  then show ?thesis
    using encode_AAAA [of 2]
    by (simp add: AAAA_loop_def FindDictionaryEntry_def FindLoop.simps MakeKey_def
        MAX_CODE_LEN_def)
qed

lemma codes_ok_prefix_chain:
  assumes ok: "codes_ok s" and i: "i < length (heap s)"
  shows "prefixCode (heap s ! i) < 256 \<or> (\<exists>j<i. codeWord (heap s ! j) = prefixCode (heap s ! i))"
proof (cases "prefixCode (heap s ! i) < 256")
  case True
  then show ?thesis ..
next
  case False
  let ?p = "prefixCode (heap s ! i)"
  from False have ge: "256 \<le> unat ?p" by (simp add: word_less_nat_alt)
  have "unat ?p < unat (codeWord (heap s ! i))"
    using codes_ok_prefix [OF ok i] by (simp add: word_less_nat_alt)
  then have lt: "unat ?p < 256 + i"
    by (simp add: codes_ok_codeWord [OF ok i])
  let ?j = "unat ?p - 256"
  from ge lt have j: "?j < i" by arith
  then have "?j < length (heap s)" using i by simp
  from codes_ok_codeWord [OF ok this] ge have "unat (codeWord (heap s ! ?j)) = unat ?p"
    by simp
  then have "codeWord (heap s ! ?j) = ?p"
    by (simp only: word_unat_eq_iff)
  with j show ?thesis by blast
qed

text \<open>
  C10. At every point of a run the prefix code of every entry is below its code, and is a
  byte or the code of an entry made earlier. So the relation between a code and its
  prefix code is well-founded: prefix chains have no cycle and end in a byte.
\<close>

theorem prefix_precedes_code:
  assumes "encode_input mem input = Some (Inr s)"
  shows "LZWEncodeFile mem input = Some (Inr (final_state s)) \<and>
         heap (final_state s) = heap s \<and>
         (\<forall>i<length (heap s).
            prefixCode (heap s ! i) < codeWord (heap s ! i) \<and>
            (prefixCode (heap s ! i) < 256 \<or>
             (\<exists>j<i. codeWord (heap s ! j) = prefixCode (heap s ! i)))) \<and>
         wf {(prefixCode n, codeWord n) |n. n \<in> set (heap s)}"
proof -
  have ok: "codes_ok s \<or> heap s = []"
  proof (cases mem input rule: encode_input_cases)
    case (single c0)
    with assms show ?thesis by auto
  next
    case (run t)
    with assms running_invD(2) [OF run(3)] show ?thesis by simp
  qed (use assms in simp_all)
  then have 1: "\<forall>i<length (heap s).
            prefixCode (heap s ! i) < codeWord (heap s ! i) \<and>
            (prefixCode (heap s ! i) < 256 \<or>
             (\<exists>j<i. codeWord (heap s ! j) = prefixCode (heap s ! i)))"
    using codes_ok_prefix codes_ok_prefix_chain by auto
  then have "{(prefixCode n, codeWord n) |n. n \<in> set (heap s)} \<subseteq> {(x, y). x < y}"
    by (auto simp: in_set_conv_nth)
  with wf have "wf {(prefixCode n, codeWord n) |n. n \<in> set (heap s)}"
    by (rule wf_subset)
  moreover have "LZWEncodeFile mem input = Some (Inr (final_state s))"
    using assms by (simp add: LZWEncodeFile_eq)
  ultimately show ?thesis using 1 by simp
qed

theorem prefix_precedes_code_witness:
  "encode_input 2 [65, 65, 65, 65] = Some (Inr AAAA_loop) \<and>
   prefixCode (heap AAAA_loop ! 1) < codeWord (heap AAAA_loop ! 1) \<and>
   codeWord (heap AAAA_loop ! 0) = prefixCode (heap AAAA_loop ! 1) \<and>
   wf {(prefixCode n, codeWord n) |n. n \<in> set (heap AAAA_loop)}"
  using prefix_precedes_code [OF encode_AAAA [of 2]] encode_AAAA [of 2]
  by (simp add: AAAA_loop_def)

subsection \<open>The codes in the output\<close>

lemma written_ABABXABA:
  "written 5 [65, 66, 65, 66, 88, 65, 66, 65] = Some ABABXABA_out"
  by (simp add: written_def LZWEncodeFile_def run_defs FindLoop.simps escalate.simps
      ABABXABA_out_def)

text \<open>
  C4 as stated fails: for the bytes A B A B X A B A the code 256 is written twice, so the
  codes from 256 up in the output are not strictly increasing.
\<close>

theorem emitted_codes_repeat:
  "written 5 [65, 66, 65, 66, 88, 65, 66, 65] = Some ABABXABA_out \<and>
   dict_codes ABABXABA_out = [256, 256] \<and>
   \<not> sorted_wrt (<) (dict_codes ABABXABA_out)"
  using written_ABABXABA
  by (simp add: ABABXABA_out_def dict_codes_def FIRST_CODE_def CHAR_BIT_def)

text \<open>
  C4, amended. Every code word of a run is a byte, an escape code (the all-ones value of
  its length) or the code of an entry of the dictionary, and these codes are 256, 257,
  ... in the order in which the entries were made. A code may be written several times or
  never.
\<close>

theorem emitted_codes_are_assigned:
  assumes "LZWEncodeFile mem input = Some (Inr s)"
  shows "(\<forall>e\<in>set (bfpOut s).
            fst e < FIRST_CODE \<or> fst e = CURRENT_MAX_CODES (snd e) - 1 \<or>
            fst e \<in> set (map codeWord (heap s))) \<and>
         map codeWord (heap s) = map of_nat [256..<256 + length (heap s)]"
proof (cases mem input rule: LZWEncodeFile_cases)
  case (single c0)
  with assms have "s = final_state (single_state c0)" by simp
  then show ?thesis
    by (simp add: FIRST_CODE_def CHAR_BIT_def byte_less)
next
  case (run t)
  with assms have s: "s = final_state t" by simp
  note d = running_invD [OF run(4)]
  note cw = codes_ok_codeWords [OF d(2)]
  have "fst e < FIRST_CODE \<or> fst e = CURRENT_MAX_CODES (snd e) - 1 \<or>
            fst e \<in> set (map codeWord (heap t))"
    if e: "e \<in> set (bfpOut (final_state t))" for e
  proof -
    from final_trace(4) [OF run(4)] e
    have "fst e < nextCode t \<or> fst e = CURRENT_MAX_CODES (snd e) - 1"
      by blast
    then show ?thesis
    proof
      assume lt: "fst e < nextCode t"
      show ?thesis
      proof (cases "fst e < FIRST_CODE")
        case True
        then show ?thesis ..
      next
        case False
        then have ge: "256 \<le> unat (fst e)"
          by (simp add: word_less_nat_alt FIRST_CODE_def CHAR_BIT_def)
        from lt have "unat (fst e) < 256 + length (heap t)"
          by (simp add: word_less_nat_alt codes_ok_next [OF d(2)])
        with ge have "unat (fst e) \<in> set [256..<256 + length (heap t)]"
          by simp
        then have "of_nat (unat (fst e)) \<in> set (map of_nat [256..<256 + length (heap t)] :: uint list)"
          by (simp only: set_map) (rule imageI)
        then have "fst e \<in> set (map codeWord (heap t))"
          by (simp add: cw)
        then show ?thesis by simp
      qed
    next
      assume "fst e = CURRENT_MAX_CODES (snd e) - 1"
      then show ?thesis by simp
    qed
  qed
  with cw show ?thesis unfolding s by simp
qed (use assms in simp_all)

theorem emitted_codes_are_assigned_witness:
  "LZWEncodeFile 2 [65, 65, 65, 65] = Some (Inr AAAA_final) \<and>
   bfpOut AAAA_final = [(65, 9), (256, 9), (65, 9)] \<and>
   map codeWord (heap AAAA_final) = [256, 257]"
  using emitted_codes_are_assigned [OF run_AAAA [of 2]] run_AAAA [of 2]
  by (simp add: AAAA_final_def AAAA_loop_def)

subsection \<open>The escape codes in the output\<close>

text \<open>
  C1, amended. The loop of lines 228 to 235 ends only when the code is below the escape
  code of the current length or the length is 20. In the output of a run every code word
  but the last is an escape code, the all-ones value of its length, followed by a code word
  one bit longer and not smaller; or it is followed by a code word of the same length and
  is below the escape code of its length, unless that length is 20. Nothing is said of the
  value of the last code word, which line 246 writes.
\<close>

theorem escalation_precedes_emission:
  assumes "LZWEncodeFile mem input = Some (Inr s)"
  shows "successively emit_rel (bfpOut s) \<and>
         (\<forall>t. \<not> (CURRENT_MAX_CODES (currentCodeLen (escalate t)) - 1 \<le> code (escalate t) \<and>
                  unat (currentCodeLen (escalate t)) < MAX_CODE_LEN))"
proof -
  have "successively emit_rel (bfpOut s)"
  proof (cases mem input rule: LZWEncodeFile_cases)
    case (single c0)
    with assms have "s = final_state (single_state c0)" by simp
    then show ?thesis by simp
  next
    case (run t)
    with assms final_trace(1) [OF run(4)] show ?thesis by simp
  qed (use assms in simp_all)
  moreover have "\<not> (CURRENT_MAX_CODES (currentCodeLen (escalate t)) - 1 \<le> code (escalate t) \<and>
                  unat (currentCodeLen (escalate t)) < MAX_CODE_LEN)" for t
    using escalate_exit [of t] by (simp add: esc_cond_def)
  ultimately show ?thesis by blast
qed

theorem escalation_precedes_emission_witness:
  "map_option (rev \<circ> take 3 \<circ> rev) (written 258 escape_input)
     = Some [(511, 9), (511, 10), (5, 10)] \<and>
   map_option (successively emit_rel) (written 258 escape_input) = Some True"
proof -
  from run_escape_input obtain s
    where s: "LZWEncodeFile 258 escape_input = Some (Inr s)"
      "(rev \<circ> take 3 \<circ> rev) (bfpOut s) = [(511, 9), (511, 10), (5, 10)]"
    by blast
  from escalation_precedes_emission [OF s(1)] s show ?thesis
    by (simp add: written_def)
qed

text \<open>
  C1 as stated fails in two ways. Line 246 writes the last code word without the loop of
  lines 228 to 235: for the 259 bytes of \<open>unchecked_input\<close> it is 511 with 9 bits, the
  escape code itself. And the loop stops at 20 bits: \<open>filling_input\<close> fills the
  dictionary, and its code \<open>1048575 = 2^20 - 1\<close>, the all-ones value of 20 bits, is
  written as the last code word but one, before a code word of the same length.
\<close>

theorem code_word_not_below_escape:
  "map_option last (written 257 unchecked_input) = Some (511, 9) \<and>
   \<not> (511 < CURRENT_MAX_CODES 9 - 1) \<and>
   map_option (last \<circ> butlast) (written 1048320 filling_input) = Some (1048575, 20) \<and>
   map_option last (written 1048320 filling_input) = Some (65, 20) \<and>
   \<not> (1048575 < CURRENT_MAX_CODES 20 - 1)"
  using written_unchecked_input written_filling_input
  by (simp add: CMC_9 CURRENT_MAX_CODES_def)

end
